theory Spec2Isabelle
  imports Complex_Main "HOL-Library.Word"
begin

unbundle bit_operations_syntax

section \<open>Values shared by both scripts\<close>

type_synonym byte = "8 word"

text \<open>
  The exceptions that the modelled JavaScript can raise: the built-in \<open>TypeError\<close>
  (property access on \<open>undefined\<close> or \<open>null\<close>), \<open>RangeError\<close> (a typed-array
  constructor or \<open>set\<close> given a bad length), \<open>SyntaxError\<close> (\<open>JSON.parse\<close>) and the
  DOM's \<open>IndexSizeError\<close> (\<open>createImageData\<close> with a zero dimension).
\<close>

datatype exn = TypeError | RangeError | SyntaxError | IndexSizeError

text \<open>
  A value read from a \<open>Float32Array\<close>, as JavaScript sees it: either the single
  \<open>NaN\<close> or a number that is not NaN, which is identified by its IEEE-754 binary32
  bit pattern (so \<open>+0\<close> is \<open>Num 0\<close> and \<open>-0\<close> is \<open>Num 0x80000000\<close>). Reading an
  element and storing it into another \<open>Float32Array\<close> goes through a Number and gives
  back the same value; no arithmetic is done on samples.
\<close>

datatype f32 = NaN | Num "32 word"

definition f32_zero :: f32 where
  "f32_zero = Num 0"

definition is_nan_bits :: "32 word \<Rightarrow> bool" where
  "is_nan_bits w \<longleftrightarrow> w AND 0x7F800000 = 0x7F800000 \<and> w AND 0x007FFFFF \<noteq> 0"

text \<open>One element of a \<open>Float32Array\<close> view: four bytes in the byte order of the
  platform, which is little-endian on every platform that runs a browser.\<close>

definition f32_of_bytes :: "byte \<Rightarrow> byte \<Rightarrow> byte \<Rightarrow> byte \<Rightarrow> f32" where
  "f32_of_bytes b0 b1 b2 b3 =
     (let w = ucast b0 OR push_bit 8 (ucast b1) OR push_bit 16 (ucast b2)
                OR push_bit 24 (ucast b3)
      in if is_nan_bits w then NaN else Num w)"

fun f32_elems :: "byte list \<Rightarrow> f32 list" where
  "f32_elems (b0 # b1 # b2 # b3 # bs) = f32_of_bytes b0 b1 b2 b3 # f32_elems bs"
| "f32_elems _ = []"

text \<open>\<open>new Float32Array(ab)\<close> for an \<open>ArrayBuffer\<close> \<open>ab\<close>: a view of the whole buffer;
  the constructor throws a \<open>RangeError\<close> when the byte length is not a multiple of the
  element size.\<close>

definition new_Float32Array :: "byte list \<Rightarrow> exn + f32 list" where
  "new_Float32Array ab =
     (if length ab mod 4 \<noteq> 0 then Inl RangeError else Inr (f32_elems ab))"

text \<open>\<open>target.set(source, offset)\<close> on typed arrays of the same element type.\<close>

definition ta_set :: "f32 list \<Rightarrow> f32 list \<Rightarrow> nat \<Rightarrow> exn + f32 list" where
  "ta_set target source offset =
     (if length target < length source + offset then Inl RangeError
      else Inr (take offset target @ source @ drop (offset + length source) target))"

text \<open>The value that \<open>out[ch][f] = a[i]\<close> stores: an index past the end reads
  \<open>undefined\<close>, which a \<open>Float32Array\<close> stores as NaN.\<close>

definition rd :: "f32 list \<Rightarrow> nat \<Rightarrow> f32" where
  "rd a i = (if i < length a then a ! i else NaN)"

section \<open>player-processor.js\<close>

type_synonym plane = "f32 list"

record player =
  buffer :: "f32 list"
  readIndex :: nat

text \<open>The message that \<open>app.js\<close> posts: \<open>{type: "pcm", buffer: floatBuf.buffer}\<close>,
  the second field being the transferred \<open>ArrayBuffer\<close>.\<close>

record port_msg =
  mtype :: string
  mbuffer :: "byte list"

definition PlayerProcessor :: player where
  "PlayerProcessor = \<lparr>buffer = [], readIndex = 0\<rparr>"

text \<open>\<open>this.port.onmessage\<close>; \<open>None\<close> stands for a falsy \<open>evt.data\<close>.\<close>

definition port_onmessage :: "port_msg option \<Rightarrow> player \<Rightarrow> exn + player" where
  "port_onmessage data p =
     (case data of
        None \<Rightarrow> Inr p
      | Some m \<Rightarrow>
          if mtype m = ''pcm'' then
            (case new_Float32Array (mbuffer m) of
               Inl e \<Rightarrow> Inl e
             | Inr incoming \<Rightarrow>
                 let newBuf = replicate (length (buffer p) + length incoming) f32_zero in
                 (case ta_set newBuf (buffer p) 0 of
                    Inl e \<Rightarrow> Inl e
                  | Inr newBuf1 \<Rightarrow>
                      (case ta_set newBuf1 incoming (length (buffer p)) of
                         Inl e \<Rightarrow> Inl e
                       | Inr newBuf2 \<Rightarrow> Inr (p\<lparr>buffer := newBuf2\<rparr>))))
          else Inr p)"

text \<open>The silence loop \<open>for (ch = 0; ch < channels; ch++) out[ch].fill(0.0)\<close>.\<close>

function silence_loop :: "nat \<Rightarrow> nat \<Rightarrow> plane list \<Rightarrow> plane list" where
  "silence_loop ch channels out =
     (if ch < channels
      then silence_loop (Suc ch) channels (out[ch := replicate (length (out ! ch)) f32_zero])
      else out)"
  by pat_completeness auto
termination
  by (relation "measure (\<lambda>(ch, channels, out). channels - ch)") auto

declare silence_loop.simps [simp del]

text \<open>The inner loop \<open>for (ch = 0; ch < channels; ch++) out[ch][f] = this.buffer[bi++]\<close>.
  A store past the end of a plane is ignored, as \<open>list_update\<close> does.\<close>

function channel_loop ::
  "nat \<Rightarrow> nat \<Rightarrow> nat \<Rightarrow> f32 list \<Rightarrow> plane list \<times> nat \<Rightarrow> plane list \<times> nat" where
  "channel_loop ch channels f buf (out, bi) =
     (if ch < channels
      then channel_loop (Suc ch) channels f buf
             (out[ch := (out ! ch)[f := rd buf bi]], Suc bi)
      else (out, bi))"
  by pat_completeness auto
termination
  by (relation "measure (\<lambda>(ch, channels, f, buf, s). channels - ch)") auto

declare channel_loop.simps [simp del]

text \<open>The outer loop \<open>for (f = 0; f < frames; f++)\<close>.\<close>

function frame_loop ::
  "nat \<Rightarrow> nat \<Rightarrow> nat \<Rightarrow> f32 list \<Rightarrow> plane list \<times> nat \<Rightarrow> plane list \<times> nat" where
  "frame_loop f frames channels buf s =
     (if f < frames
      then frame_loop (Suc f) frames channels buf (channel_loop 0 channels f buf s)
      else s)"
  by pat_completeness auto
termination
  by (relation "measure (\<lambda>(f, frames, channels, buf, s). frames - f)") auto

declare frame_loop.simps [simp del]

text \<open>
  \<open>process(inputs, outputs, parameters)\<close>; \<open>inputs\<close> and \<open>parameters\<close> are not read.
  The result is the returned flag, the output planes after the call and the processor
  after the call. \<open>outputs[0]\<close> of an empty \<open>outputs\<close> and \<open>out[0]\<close> of an output
  without channels are \<open>undefined\<close>, whose \<open>length\<close> throws.
\<close>

definition process :: "plane list list \<Rightarrow> player \<Rightarrow> exn + (bool \<times> plane list list \<times> player)" where
  "process outputs p =
     (case outputs of
        [] \<Rightarrow> Inl TypeError
      | out # rest \<Rightarrow>
          (case out of
             [] \<Rightarrow> Inl TypeError
           | plane0 # _ \<Rightarrow>
               let channels = length out; frames = length plane0 in
               if length (buffer p) < frames * channels
               then Inr (True, silence_loop 0 channels out # rest, p)
               else
                 let (out', bi) = frame_loop 0 frames channels (buffer p) (out, 0) in
                 Inr (True, out' # rest,
                      p\<lparr>buffer := (if bi < length (buffer p) then drop bi (buffer p) else [])\<rparr>)))"

subsection \<open>Running the processor\<close>

text \<open>The port delivers messages one at a time, in the order they were posted; an
  exception in the handler leaves the processor as the earlier messages made it.\<close>

fun deliver :: "port_msg option list \<Rightarrow> player \<Rightarrow> exn + player" where
  "deliver [] p = Inr p"
| "deliver (d # ds) p =
     (case port_onmessage d p of Inl e \<Rightarrow> Inl e | Inr p' \<Rightarrow> deliver ds p')"

text \<open>Successive render ticks: each element of the list is the \<open>outputs\<close> argument of
  one call of \<open>process\<close>; the result collects \<open>outputs\<close> as each call left it.\<close>

fun ticks :: "plane list list list \<Rightarrow> player \<Rightarrow> exn + (plane list list list \<times> player)" where
  "ticks [] p = Inr ([], p)"
| "ticks (outputs # later) p =
     (case process outputs p of
        Inl e \<Rightarrow> Inl e
      | Inr (continue, outputs', p') \<Rightarrow>
          (case ticks later p' of
             Inl e \<Rightarrow> Inl e
           | Inr (rendered, p'') \<Rightarrow> Inr (outputs' # rendered, p'')))"

subsection \<open>The vocabulary of the specification\<close>

text \<open>De-interleaving as the specification words it: the sample at index
  \<open>f * channelCount + ch\<close> goes to \<open>plane[ch][f]\<close>.\<close>

definition deinterleave :: "nat \<Rightarrow> nat \<Rightarrow> f32 list \<Rightarrow> plane list" where
  "deinterleave frames channels samples =
     map (\<lambda>ch. map (\<lambda>f. samples ! (f * channels + ch)) [0..<frames]) [0..<channels]"

text \<open>The order in which a set of planes is played: frame after frame, and within a
  frame channel after channel.\<close>

definition interleave :: "nat \<Rightarrow> plane list \<Rightarrow> f32 list" where
  "interleave frames planes = concat (map (\<lambda>f. map (\<lambda>pl. pl ! f) planes) [0..<frames])"

definition pcm :: "byte list \<Rightarrow> port_msg option" where
  "pcm ab = Some \<lparr>mtype = ''pcm'', mbuffer = ab\<rparr>"

text \<open>What the host hands to \<open>process\<close> on a tick: at least one output, with at least
  one channel, every plane of that output having the same number of frames.\<close>

definition channelCount :: "plane list list \<Rightarrow> nat" where
  "channelCount outputs = length (hd outputs)"

definition frameCount :: "plane list list \<Rightarrow> nat" where
  "frameCount outputs = length (hd (hd outputs))"

definition render_request :: "plane list list \<Rightarrow> bool" where
  "render_request outputs \<longleftrightarrow>
     outputs \<noteq> [] \<and> hd outputs \<noteq> [] \<and>
     list_all (\<lambda>pl. length pl = frameCount outputs) (hd outputs)"

text \<open>The samples that one rendered tick plays, in playing order.\<close>

definition played :: "plane list list \<Rightarrow> f32 list" where
  "played outputs = interleave (frameCount outputs) (hd outputs)"

text \<open>The bytes of the four floats 1.0, 2.0, 3.0, 4.0.\<close>

definition one_to_four :: "byte list" where
  "one_to_four = [0, 0, 0x80, 0x3F,  0, 0, 0, 0x40,  0, 0, 0x40, 0x40,  0, 0, 0x80, 0x40]"

section \<open>app.js\<close>

subsection \<open>Numbers\<close>

text \<open>
  A JavaScript Number is an IEEE-754 binary64 value: NaN, an infinity, or a finite
  value, which is a rational number. The two zeros are one value here: the only
  operations that tell them apart (division by zero, \<open>Object.is\<close>, \<open>Math.min\<close> and
  \<open>Math.max\<close> of the two zeros) either do not occur in \<open>app.js\<close> or end in a byte
  that is 0 for both.
\<close>

datatype double = NotANumber | PlusInfinity | MinusInfinity | Finite rat

definition pow2 :: "int \<Rightarrow> rat" where
  "pow2 e = (if 0 \<le> e then 2 ^ nat e else 1 / 2 ^ nat (- e))"

text \<open>The number of binary digits of a positive integer.\<close>

function bits :: "int \<Rightarrow> int" where
  "bits k = (if k \<le> 0 then 0 else 1 + bits (k div 2))"
  by pat_completeness auto
termination
  by (relation "measure nat") auto

declare bits.simps [simp del]

text \<open>For \<open>x > 0\<close>, the exponent \<open>e\<close> with \<open>2^e \<le> x < 2^(e+1)\<close>.\<close>

definition ilog2 :: "rat \<Rightarrow> int" where
  "ilog2 x =
     (let (p, q) = quotient_of x;
          d = bits p - bits q
      in if pow2 d \<le> x then d else d - 1)"

text \<open>Rounding to the nearest integer, a tie going to the even one.\<close>

definition rne :: "rat \<Rightarrow> int" where
  "rne x =
     (let f = \<lfloor>x\<rfloor>; d = x - of_int f
      in if d < 1 / 2 then f else if 1 / 2 < d then f + 1 else if even f then f else f + 1)"

text \<open>
  Rounding a rational to binary64, to nearest and ties to even: 53 significant bits,
  the exponent not below \<open>-1022\<close> (so that small values are rounded to multiples of
  \<open>2^-1074\<close>), and an infinity when the rounded value reaches \<open>2^1024\<close>.
\<close>

definition round64 :: "rat \<Rightarrow> double" where
  "round64 x =
     (if x = 0 then Finite 0
      else
        let e = max (ilog2 \<bar>x\<bar>) (- 1022);
            ulp = pow2 (e - 52);
            m = rne (\<bar>x\<bar> / ulp)
        in if 1024 \<le> e \<or> (e = 1023 \<and> 9007199254740992 \<le> m)
           then (if 0 < x then PlusInfinity else MinusInfinity)
           else Finite (if 0 < x then of_int m * ulp else - (of_int m * ulp)))"

fun dneg :: "double \<Rightarrow> double" where
  "dneg (Finite a) = Finite (- a)"
| "dneg PlusInfinity = MinusInfinity"
| "dneg MinusInfinity = PlusInfinity"
| "dneg NotANumber = NotANumber"

text \<open>\<open>a + b\<close>, \<open>a - b\<close> and \<open>a * b\<close> on Numbers.\<close>

fun dadd :: "double \<Rightarrow> double \<Rightarrow> double" where
  "dadd (Finite a) (Finite b) = round64 (a + b)"
| "dadd NotANumber y = NotANumber"
| "dadd x NotANumber = NotANumber"
| "dadd PlusInfinity MinusInfinity = NotANumber"
| "dadd MinusInfinity PlusInfinity = NotANumber"
| "dadd PlusInfinity y = PlusInfinity"
| "dadd MinusInfinity y = MinusInfinity"
| "dadd (Finite a) y = y"

definition dsub :: "double \<Rightarrow> double \<Rightarrow> double" where
  "dsub x y = dadd x (dneg y)"

fun dmul :: "double \<Rightarrow> double \<Rightarrow> double" where
  "dmul (Finite a) (Finite b) = round64 (a * b)"
| "dmul NotANumber y = NotANumber"
| "dmul x NotANumber = NotANumber"
| "dmul (Finite a) y = (if a = 0 then NotANumber else if 0 < a then y else dneg y)"
| "dmul x (Finite b) = (if b = 0 then NotANumber else if 0 < b then x else dneg x)"
| "dmul x y = (if x = y then PlusInfinity else MinusInfinity)"

text \<open>An array length or a canvas dimension as a Number; it is below \<open>2^32\<close> in a
  browser, so the value is exact.\<close>

definition of_len :: "nat \<Rightarrow> double" where
  "of_len n = Finite (of_nat n)"

text \<open>\<open>a / b\<close> for two such non-negative integers.\<close>

definition ratio :: "nat \<Rightarrow> nat \<Rightarrow> double" where
  "ratio a b =
     (if b = 0 then (if a = 0 then NotANumber else PlusInfinity)
      else round64 (of_nat a / of_nat b))"

fun dle :: "double \<Rightarrow> double \<Rightarrow> bool" where
  "dle (Finite a) (Finite b) = (a \<le> b)"
| "dle MinusInfinity y = True"
| "dle x PlusInfinity = True"
| "dle x y = False"

text \<open>\<open>Math.min\<close>, \<open>Math.max\<close> and \<open>Math.floor\<close>: NaN if an argument is NaN.\<close>

definition js_min :: "double \<Rightarrow> double \<Rightarrow> double" where
  "js_min x y =
     (if x = NotANumber \<or> y = NotANumber then NotANumber else if dle x y then x else y)"

definition js_max :: "double \<Rightarrow> double \<Rightarrow> double" where
  "js_max x y =
     (if x = NotANumber \<or> y = NotANumber then NotANumber else if dle x y then y else x)"

fun js_floor :: "double \<Rightarrow> double" where
  "js_floor (Finite a) = Finite (of_int \<lfloor>a\<rfloor>)"
| "js_floor x = x"

text \<open>Storing a Number into a \<open>Uint8ClampedArray\<close>: NaN becomes 0, the value is
  clamped to 0..255 and rounded to the nearest integer, a tie going to the even one.\<close>

fun to_uint8_clamp :: "double \<Rightarrow> byte" where
  "to_uint8_clamp (Finite a) =
     (if a \<le> 0 then 0 else if 255 \<le> a then 255 else word_of_int (rne a))"
| "to_uint8_clamp PlusInfinity = 255"
| "to_uint8_clamp x = 0"

text \<open>\<open>xs[d]\<close> for an array \<open>xs\<close> and a Number \<open>d\<close>: the element if \<open>d\<close> is an index of
  the array, \<open>undefined\<close> (\<open>None\<close>) otherwise.\<close>

definition js_elem :: "'a list \<Rightarrow> double \<Rightarrow> 'a option" where
  "js_elem xs d =
     (case d of
        Finite a \<Rightarrow>
          if 0 \<le> a \<and> of_int \<lfloor>a\<rfloor> = a \<and> nat \<lfloor>a\<rfloor> < length xs
          then Some (xs ! nat \<lfloor>a\<rfloor>) else None
      | _ \<Rightarrow> None)"

text \<open>The Number that arithmetic makes of a cell: \<open>undefined\<close> counts as NaN.\<close>

fun to_number :: "double option \<Rightarrow> double" where
  "to_number None = NotANumber"
| "to_number (Some d) = d"

subsection \<open>Values decoded from JSON\<close>

text \<open>
  A JavaScript string is a sequence of 16-bit code units. The value that \<open>JSON.parse\<close>
  returns is built from the constructors below other than \<open>Undefined\<close>, which is what
  reading an absent property gives.
\<close>

type_synonym jsstring = "16 word list"

definition ascii :: "string \<Rightarrow> jsstring" where
  "ascii s = map (\<lambda>c. of_nat (of_char c)) s"

datatype jsval =
    Undefined
  | Null
  | Bool bool
  | Number double
  | Str jsstring
  | Arr "jsval list"
  | Obj "(jsstring \<times> jsval) list"

text \<open>\<open>v.name\<close> for the names \<open>type\<close> and \<open>data\<close>, which only an object can have as
  properties: reading any property of \<open>undefined\<close> or \<open>null\<close> throws.\<close>

fun js_prop :: "jsval \<Rightarrow> jsstring \<Rightarrow> exn + jsval" where
  "js_prop Undefined name = Inl TypeError"
| "js_prop Null name = Inl TypeError"
| "js_prop (Obj kvs) name = Inr (case map_of kvs name of None \<Rightarrow> Undefined | Some v \<Rightarrow> v)"
| "js_prop v name = Inr Undefined"

text \<open>\<open>v.length\<close>: the number of elements of an array, of code units of a string
  (\<open>Inl n\<close>), and whatever an object holds under that name (\<open>Inr\<close>).\<close>

fun js_length :: "jsval \<Rightarrow> exn + (nat + jsval)" where
  "js_length (Arr xs) = Inr (Inl (length xs))"
| "js_length (Str s) = Inr (Inl (length s))"
| "js_length v = (case js_prop v (ascii ''length'') of Inl e \<Rightarrow> Inl e | Inr l \<Rightarrow> Inr (Inr l))"

text \<open>\<open>v[0]\<close>.\<close>

fun js_at0 :: "jsval \<Rightarrow> exn + jsval" where
  "js_at0 (Arr xs) = Inr (case xs of [] \<Rightarrow> Undefined | x # _ \<Rightarrow> x)"
| "js_at0 (Str s) = Inr (case s of [] \<Rightarrow> Undefined | c # _ \<Rightarrow> Str [c])"
| "js_at0 v = js_prop v (ascii ''0'')"

subsection \<open>The page\<close>

datatype level = Log | Warn | Error

text \<open>The canvas with id \<open>spec\<close>: its bitmap is \<open>4 * width * height\<close> bytes, RGBA, row
  after row.\<close>

record canvas =
  width :: nat
  height :: nat
  pixels :: "byte list"

text \<open>
  The part of the page that the message handler reads and writes. \<open>playerNode\<close> is
  \<open>None\<close> as long as the variable is \<open>undefined\<close> (\<open>initAudio\<close> returns early when the
  AudioWorklet module cannot be loaded); otherwise it holds the messages posted to the
  node's port, oldest first. \<open>spec_canvas\<close> is what \<open>document.getElementById("spec")\<close>
  finds.
\<close>

record app =
  playerNode :: "port_msg list option"
  console :: "(level \<times> string) list"
  spec_canvas :: "canvas option"

definition clearRect :: "canvas \<Rightarrow> canvas" where
  "clearRect cv = cv\<lparr>pixels := replicate (4 * width cv * height cv) 0\<rparr>"

text \<open>A matrix whose rows are arrays of numbers, as the sender makes them; the rows
  may differ in length and there may be none.\<close>

fun num_cell :: "jsval \<Rightarrow> double option" where
  "num_cell (Number d) = Some d"
| "num_cell v = None"

fun num_row :: "jsval \<Rightarrow> double list option" where
  "num_row (Arr cells) = those (map num_cell cells)"
| "num_row v = None"

fun num_matrix :: "jsval \<Rightarrow> double list list option" where
  "num_matrix (Arr rows) = those (map num_row rows)"
| "num_matrix v = None"

text \<open>Line 98 and lines 100 to 103: the colour \<open>c\<close> of a cell \<open>v\<close>, and the four
  stores into \<open>img.data\<close> at \<open>i\<close>.\<close>

definition colour :: "double option \<Rightarrow> double" where
  "colour v =
     js_max (Finite 0) (js_min (Finite 255) (dmul (dadd (to_number v) (Finite 80)) (Finite 3)))"

definition put_rgba :: "byte list \<Rightarrow> nat \<Rightarrow> double \<Rightarrow> byte list" where
  "put_rgba img i c =
     img[i := to_uint8_clamp c, i + 1 := 0, i + 2 := to_uint8_clamp (dsub (Finite 255) c),
         i + 3 := 255]"

text \<open>The four bytes of a pixel as the specification gives them,
  \<open>RGBA = (c, 0, 255 - c, 255)\<close>, each stored into the \<open>Uint8ClampedArray\<close>.\<close>

definition rgba :: "double \<Rightarrow> byte list" where
  "rgba c = [to_uint8_clamp c, 0, to_uint8_clamp (dsub (Finite 255) c), 255]"

text \<open>
  The loop \<open>for (x = 0; x < w; x++)\<close> of lines 95 to 104, for a matrix of numbers.
  \<open>matrix[row][col]\<close> throws when \<open>matrix[row]\<close> is \<open>undefined\<close>, and is \<open>undefined\<close>
  when the row has no such column.
\<close>

function x_loop ::
  "double list list \<Rightarrow> double \<Rightarrow> nat \<Rightarrow> nat \<Rightarrow> nat \<Rightarrow> nat \<Rightarrow> byte list \<Rightarrow> exn + byte list" where
  "x_loop matrix row cols y w x img =
     (if x < w then
        let col = js_floor (dmul (ratio x w) (of_len cols)) in
        (case js_elem matrix row of
           None \<Rightarrow> Inl TypeError
         | Some cells \<Rightarrow>
             let v = js_elem cells col;
                 c = colour v;
                 i = (y * w + x) * 4
             in x_loop matrix row cols y w (Suc x) (put_rgba img i c))
      else Inr img)"
  by pat_completeness auto
termination
  by (relation "measure (\<lambda>(matrix, row, cols, y, w, x, img). w - x)") auto

declare x_loop.simps [simp del]

text \<open>The loop \<open>for (y = 0; y < h; y++)\<close> of lines 93 to 105.\<close>

function y_loop ::
  "double list list \<Rightarrow> nat \<Rightarrow> nat \<Rightarrow> nat \<Rightarrow> nat \<Rightarrow> nat \<Rightarrow> byte list \<Rightarrow> exn + byte list" where
  "y_loop matrix rows cols w h y img =
     (if y < h then
        let row = js_floor (dmul (ratio y h) (of_len rows)) in
        (case x_loop matrix row cols y w 0 img of
           Inl e \<Rightarrow> Inl e
         | Inr img' \<Rightarrow> y_loop matrix rows cols w h (Suc y) img')
      else Inr img)"
  by pat_completeness auto
termination
  by (relation "measure (\<lambda>(matrix, rows, cols, w, h, y, img). h - y)") auto

declare y_loop.simps [simp del]

text \<open>Lines 92 to 105: \<open>createImageData(w, h)\<close> gives \<open>4 * w * h\<close> zero bytes, which
  the two loops fill.\<close>

definition pixel_loop :: "double list list \<Rightarrow> nat \<Rightarrow> nat \<Rightarrow> nat \<Rightarrow> nat \<Rightarrow> exn + byte list" where
  "pixel_loop matrix rows cols w h = y_loop matrix rows cols w h 0 (replicate (4 * w * h) 0)"

text \<open>
  For a matrix that is not an array of arrays of numbers (strings, objects, \<open>null\<close>
  cells and the like) the same lines go through JavaScript's conversions between
  strings, objects and numbers. Those are not modelled; for such a matrix the outcome
  of lines 92 to 105 is a parameter: from the matrix, \<open>rows\<close>, \<open>cols\<close>, \<open>w\<close> and \<open>h\<close> it
  gives the bytes of the image, or the exception thrown.
\<close>

type_synonym coerced =
  "jsval \<Rightarrow> nat + jsval \<Rightarrow> nat + jsval \<Rightarrow> nat \<Rightarrow> nat \<Rightarrow> exn + byte list"

text \<open>
  \<open>drawSpectrogram(matrix)\<close>: the page after the call and the exception it threw, if
  any. \<open>getContext("2d")\<close> gives a context, no other kind of context being asked for
  anywhere; \<open>createImageData\<close> throws for a zero width or height.
\<close>

definition drawSpectrogram :: "coerced \<Rightarrow> jsval \<Rightarrow> app \<Rightarrow> app \<times> exn option" where
  "drawSpectrogram other matrix a =
     (case spec_canvas a of
        None \<Rightarrow> (a, None)
      | Some cv \<Rightarrow>
          let h = height cv; w = width cv;
              a1 = a\<lparr>spec_canvas := Some (clearRect cv)\<rparr>
          in
          (case js_length matrix of
             Inl e \<Rightarrow> (a1, Some e)
           | Inr rows \<Rightarrow>
               (case js_at0 matrix of
                  Inl e \<Rightarrow> (a1, Some e)
                | Inr row0 \<Rightarrow>
                    (case js_length row0 of
                       Inl e \<Rightarrow> (a1, Some e)
                     | Inr cols \<Rightarrow>
                         if w = 0 \<or> h = 0 then (a1, Some IndexSizeError)
                         else
                           (case (case (num_matrix matrix, rows, cols) of
                                    (Some m, Inl r, Inl c) \<Rightarrow> pixel_loop m r c w h
                                  | _ \<Rightarrow> other matrix rows cols w h) of
                              Inl e \<Rightarrow> (a1, Some e)
                            | Inr img \<Rightarrow>
                                (a\<lparr>spec_canvas := Some (cv\<lparr>pixels := img\<rparr>)\<rparr>, None))))))"

text \<open>
  The text branch of \<open>ws.onmessage\<close>. \<open>parsed\<close> is the outcome of
  \<open>JSON.parse(evt.data)\<close>. The body of the \<open>try\<close> gives a page and possibly an
  exception; the empty \<open>catch\<close> drops the exception and keeps the page.
\<close>

definition try_body :: "coerced \<Rightarrow> exn + jsval \<Rightarrow> app \<Rightarrow> app \<times> exn option" where
  "try_body other parsed a =
     (case parsed of
        Inl e \<Rightarrow> (a, Some e)
      | Inr msg \<Rightarrow>
          (case js_prop msg (ascii ''type'') of
             Inl e \<Rightarrow> (a, Some e)
           | Inr t \<Rightarrow>
               if t = Str (ascii ''spectrogram'') then
                 (case js_prop msg (ascii ''data'') of
                    Inl e \<Rightarrow> (a, Some e)
                  | Inr d \<Rightarrow> drawSpectrogram other d a)
               else (a, None)))"

definition ws_onmessage_text :: "coerced \<Rightarrow> exn + jsval \<Rightarrow> app \<Rightarrow> app \<times> exn option" where
  "ws_onmessage_text other parsed a =
     (case try_body other parsed a of
        (a', Some e) \<Rightarrow> (a', None)
      | (a', None) \<Rightarrow> (a', None))"

text \<open>
  The binary branch. The first two bytes are compared, as characters, with \<open>"OP"\<close>;
  a tagged chunk is reported and dropped. Otherwise lines 73 to 75: the
  \<open>Float32Array\<close> view is built, and the chunk's \<open>ArrayBuffer\<close> is posted to the port of
  \<open>playerNode\<close>, whose \<open>port\<close> cannot be read while it is \<open>undefined\<close>.
\<close>

definition header :: "byte list \<Rightarrow> string" where
  "header ab = [char_of (unat (ab ! 0)), char_of (unat (ab ! 1))]"

definition post_pcm :: "byte list \<Rightarrow> app \<Rightarrow> app \<times> exn option" where
  "post_pcm ab a =
     (case new_Float32Array ab of
        Inl e \<Rightarrow> (a, Some e)
      | Inr floatBuf \<Rightarrow>
          (case playerNode a of
             None \<Rightarrow> (a, Some TypeError)
           | Some port \<Rightarrow>
               (a\<lparr>playerNode := Some (port @ [\<lparr>mtype = ''pcm'', mbuffer = ab\<rparr>])\<rparr>, None)))"

definition ws_onmessage_binary :: "byte list \<Rightarrow> app \<Rightarrow> app \<times> exn option" where
  "ws_onmessage_binary ab a =
     (if 2 \<le> length ab \<and> header ab = ''OP''
      then (a\<lparr>console := console a @
                 [(Warn, ''Received Opus packet - decoder not implemented in UI'')]\<rparr>, None)
      else post_pcm ab a)"

text \<open>\<open>ws.onmessage\<close>: \<open>evt.data\<close> is a string or, since \<open>binaryType\<close> is
  \<open>"arraybuffer"\<close>, an \<open>ArrayBuffer\<close>. \<open>JSON_parse\<close> stands for the built-in.\<close>

datatype ws_data = TextData jsstring | BinaryData "byte list"

definition ws_onmessage ::
  "(jsstring \<Rightarrow> exn + jsval) \<Rightarrow> coerced \<Rightarrow> ws_data \<Rightarrow> app \<Rightarrow> app \<times> exn option" where
  "ws_onmessage JSON_parse other data a =
     (case data of
        TextData s \<Rightarrow> ws_onmessage_text other (JSON_parse s) a
      | BinaryData ab \<Rightarrow> ws_onmessage_binary ab a)"

subsection \<open>A small spectrogram\<close>

text \<open>The value that \<open>JSON.parse\<close> gives for a matrix of numbers, and a page with a
  canvas of two by two pixels, used to run the definitions.\<close>

definition json_matrix :: "double list list \<Rightarrow> jsval" where
  "json_matrix m = Arr (map (\<lambda>row. Arr (map Number row)) m)"

definition demo_canvas :: canvas where
  "demo_canvas = \<lparr>width = 2, height = 2, pixels = replicate 16 7\<rparr>"

definition demo_page :: app where
  "demo_page = \<lparr>playerNode = None, console = [], spec_canvas = Some demo_canvas\<rparr>"

definition demo_matrix :: "double list list" where
  "demo_matrix = [[Finite (- 80), Finite (- 159 / 2)], [Finite 5, Finite (- 30)]]"

section \<open>The loops of the render callback\<close>

lemma silence_loop_eq:
  "channels = length out \<Longrightarrow> ch \<le> channels \<Longrightarrow>
   silence_loop ch channels out =
     take ch out @ map (\<lambda>pl. replicate (length pl) f32_zero) (drop ch out)"
proof (induction ch channels out rule: silence_loop.induct)
  case (1 ch channels out)
  show ?case
  proof (cases "ch < channels")
    case True
    let ?z = "replicate (length (out ! ch)) f32_zero"
    from True 1 have "silence_loop ch channels out =
        take (Suc ch) (out[ch := ?z]) @
        map (\<lambda>pl. replicate (length pl) f32_zero) (drop (Suc ch) (out[ch := ?z]))"
      by (subst silence_loop.simps) simp
    also from True 1(2) have "take (Suc ch) (out[ch := ?z]) = take ch out @ [?z]"
      by (simp add: take_Suc_conv_app_nth)
    also from True 1(2) have "drop ch out = out ! ch # drop (Suc ch) out"
      by (simp add: Cons_nth_drop_Suc)
    then have "(take ch out @ [?z]) @
        map (\<lambda>pl. replicate (length pl) f32_zero) (drop (Suc ch) (out[ch := ?z])) =
        take ch out @ map (\<lambda>pl. replicate (length pl) f32_zero) (drop ch out)"
      by simp
    finally show ?thesis .
  next
    case False
    with 1(2,3) show ?thesis
      by (subst silence_loop.simps) simp
  qed
qed

lemma channel_loop_snd:
  "snd (channel_loop ch channels f buf s) = snd s + (channels - ch)"
proof (induction ch channels f buf s rule: channel_loop.induct)
  case (1 ch channels f buf out bi)
  show ?case
  proof (cases "ch < channels")
    case True
    with 1 have "snd (channel_loop ch channels f buf (out, bi)) = Suc bi + (channels - Suc ch)"
      by (subst channel_loop.simps) simp
    with True show ?thesis by simp
  next
    case False
    then show ?thesis by (subst channel_loop.simps) simp
  qed
qed

lemma channel_loop_length:
  "length (fst (channel_loop ch channels f buf s)) = length (fst s)"
proof (induction ch channels f buf s rule: channel_loop.induct)
  case (1 ch channels f buf out bi)
  then show ?case
    by (subst channel_loop.simps) simp
qed

lemma channel_loop_nth:
  "i < length (fst s) \<Longrightarrow>
   fst (channel_loop ch channels f buf s) ! i =
     (if ch \<le> i \<and> i < channels then (fst s ! i)[f := rd buf (snd s + (i - ch))]
      else fst s ! i)"
proof (induction ch channels f buf s rule: channel_loop.induct)
  case (1 ch channels f buf out bi)
  show ?case
  proof (cases "ch < channels")
    case True
    let ?out = "out[ch := (out ! ch)[f := rd buf bi]]"
    from 1(2) have i: "i < length ?out" by simp
    have step: "fst (channel_loop ch channels f buf (out, bi)) ! i =
        (if Suc ch \<le> i \<and> i < channels then (?out ! i)[f := rd buf (Suc bi + (i - Suc ch))]
         else ?out ! i)"
      using 1(1)[OF True] i True by (subst channel_loop.simps) simp
    show ?thesis
    proof (cases "i = ch")
      case True
      with step 1(2) \<open>ch < channels\<close> show ?thesis by simp
    next
      case False
      show ?thesis
      proof (cases "Suc ch \<le> i \<and> i < channels")
        case True
        then have idx: "Suc bi + (i - Suc ch) = bi + (i - ch)" by arith
        from True have yes: "ch \<le> i \<and> i < channels" by arith
        from False have e: "?out ! i = out ! i" by simp
        have "fst (channel_loop ch channels f buf (out, bi)) ! i =
            (out ! i)[f := rd buf (bi + (i - ch))]"
          using step[unfolded if_P[OF True]] by (simp only: e idx)
        then show ?thesis by (simp only: if_P[OF yes] fst_conv snd_conv)
      next
        case no: False
        with False have no': "\<not> (ch \<le> i \<and> i < channels)" by arith
        from False have "?out ! i = out ! i" by simp
        with step[unfolded if_not_P[OF no]]
        have "fst (channel_loop ch channels f buf (out, bi)) ! i = out ! i" by simp
        then show ?thesis by (simp only: if_not_P[OF no'] fst_conv snd_conv)
      qed
    qed
  next
    case False
    then show ?thesis
      by (subst channel_loop.simps) auto
  qed
qed

lemma frame_loop_snd:
  "snd (frame_loop f frames channels buf s) = snd s + (frames - f) * channels"
proof (induction f frames channels buf s rule: frame_loop.induct)
  case (1 f frames channels buf s)
  show ?case
  proof (cases "f < frames")
    case True
    with 1 have "snd (frame_loop f frames channels buf s) =
        snd s + channels + (frames - Suc f) * channels"
      by (subst frame_loop.simps) (simp add: channel_loop_snd)
    also from True have "frames - f = Suc (frames - Suc f)" by simp
    then have "snd s + channels + (frames - Suc f) * channels =
        snd s + (frames - f) * channels" by simp
    finally show ?thesis .
  next
    case False
    then show ?thesis by (subst frame_loop.simps) simp
  qed
qed

lemma frame_loop_length:
  "length (fst (frame_loop f frames channels buf s)) = length (fst s)"
proof (induction f frames channels buf s rule: frame_loop.induct)
  case (1 f frames channels buf s)
  then show ?case
    by (subst frame_loop.simps) (simp add: channel_loop_length)
qed

lemma frame_loop_plane_length:
  "i < length (fst s) \<Longrightarrow>
   length (fst (frame_loop f frames channels buf s) ! i) = length (fst s ! i)"
proof (induction f frames channels buf s rule: frame_loop.induct)
  case (1 f frames channels buf s)
  then show ?case
    by (subst frame_loop.simps) (simp add: channel_loop_length channel_loop_nth)
qed

lemma frame_loop_nth:
  "i < length (fst s) \<Longrightarrow> g < length (fst s ! i) \<Longrightarrow>
   fst (frame_loop f frames channels buf s) ! i ! g =
     (if f \<le> g \<and> g < frames \<and> i < channels
      then rd buf (snd s + (g - f) * channels + i)
      else fst s ! i ! g)"
proof (induction f frames channels buf s rule: frame_loop.induct)
  case (1 f frames channels buf s)
  show ?case
  proof (cases "f < frames")
    case True
    let ?s = "channel_loop 0 channels f buf s"
    have len: "i < length (fst ?s)" using 1(2) by (simp add: channel_loop_length)
    have pl: "fst ?s ! i = (if i < channels then (fst s ! i)[f := rd buf (snd s + i)] else fst s ! i)"
      using 1(2) by (simp add: channel_loop_nth)
    then have g: "g < length (fst ?s ! i)" using 1(3) by simp
    have step: "fst (frame_loop f frames channels buf s) ! i ! g =
        (if Suc f \<le> g \<and> g < frames \<and> i < channels
         then rd buf (snd ?s + (g - Suc f) * channels + i)
         else fst ?s ! i ! g)"
      using 1(1)[OF True len g] True by (subst frame_loop.simps) simp
    show ?thesis
    proof (cases "Suc f \<le> g \<and> g < frames \<and> i < channels")
      case True
      then have "g - f = Suc (g - Suc f)" by arith
      with True step show ?thesis by (simp add: channel_loop_snd add.assoc)
    next
      case False
      with step pl 1(3) \<open>f < frames\<close> show ?thesis
        by (auto simp: nth_list_update not_less_eq_eq)
    qed
  next
    case False
    then show ?thesis by (subst frame_loop.simps) auto
  qed
qed

lemma length_f32_elems: "length (f32_elems ab) = length ab div 4"
  by (induction ab rule: f32_elems.induct) simp_all

lemma ta_set_whole:
  "ta_set (replicate (length a + n) z) a 0 = Inr (a @ replicate n z)"
  by (simp add: ta_set_def)

lemma ta_set_tail:
  "ta_set (a @ replicate (length b) z) b (length a) = Inr (a @ b)"
  by (simp add: ta_set_def)

lemma port_onmessage_pcm:
  "length ab mod 4 = 0 \<Longrightarrow>
   port_onmessage (pcm ab) p = Inr (p\<lparr>buffer := buffer p @ f32_elems ab\<rparr>)"
  by (simp add: port_onmessage_def pcm_def new_Float32Array_def ta_set_whole ta_set_tail)

lemma port_onmessage_bad_length:
  "length ab mod 4 \<noteq> 0 \<Longrightarrow> port_onmessage (pcm ab) p = Inl RangeError"
  by (simp add: port_onmessage_def pcm_def new_Float32Array_def)

lemma process_underrun:
  assumes "out \<noteq> []" and "length (buffer p) < length (hd out) * length out"
  shows "process (out # rest) p =
           Inr (True, map (\<lambda>pl. replicate (length pl) f32_zero) out # rest, p)"
proof -
  from assms(1) obtain plane0 others where out: "out = plane0 # others"
    by (cases out) auto
  have "silence_loop 0 (length out) out = map (\<lambda>pl. replicate (length pl) f32_zero) out"
    by (simp add: silence_loop_eq)
  with assms(2) show ?thesis
    unfolding process_def out by simp
qed

lemma drop_or_empty: "(if n < length xs then drop n xs else []) = drop n xs"
  by simp

lemma process_sufficient:
  assumes "out \<noteq> []" and "length (hd out) * length out \<le> length (buffer p)"
  shows "process (out # rest) p =
           Inr (True, fst (frame_loop 0 (length (hd out)) (length out) (buffer p) (out, 0)) # rest,
                p\<lparr>buffer := drop (length (hd out) * length out) (buffer p)\<rparr>)"
proof -
  from assms(1) obtain plane0 others where out: "out = plane0 # others"
    by (cases out) auto
  from assms(2) have "\<not> length (buffer p) < length plane0 * length (plane0 # others)"
    by (simp add: out)
  then show ?thesis
    unfolding process_def out
    by (simp only: list.case Let_def if_False case_prod_beta frame_loop_snd drop_or_empty
        list.sel add_0 snd_conv diff_zero)
qed

lemma frame_loop_rect:
  assumes "\<forall>pl\<in>set out. length pl = frames"
    and "frames * length out \<le> length buf"
  shows "fst (frame_loop 0 frames (length out) buf (out, 0)) = deinterleave frames (length out) buf"
proof (rule nth_equalityI)
  show "length (fst (frame_loop 0 frames (length out) buf (out, 0))) =
        length (deinterleave frames (length out) buf)"
    by (simp add: frame_loop_length deinterleave_def)
next
  fix ch assume "ch < length (fst (frame_loop 0 frames (length out) buf (out, 0)))"
  then have ch: "ch < length out" by (simp add: frame_loop_length)
  then have len: "length (out ! ch) = frames" using assms(1) by simp
  show "fst (frame_loop 0 frames (length out) buf (out, 0)) ! ch =
        deinterleave frames (length out) buf ! ch"
  proof (rule nth_equalityI)
    show "length (fst (frame_loop 0 frames (length out) buf (out, 0)) ! ch) =
          length (deinterleave frames (length out) buf ! ch)"
      using ch len by (simp add: frame_loop_plane_length deinterleave_def)
  next
    fix f assume "f < length (fst (frame_loop 0 frames (length out) buf (out, 0)) ! ch)"
    then have f: "f < frames" using ch len by (simp add: frame_loop_plane_length)
    have "f * length out + ch < Suc f * length out" using ch by simp
    also have "\<dots> \<le> frames * length out" using f by (simp only: mult_le_mono1 Suc_leI)
    finally have "f * length out + ch < length buf" using assms(2) by simp
    then show "fst (frame_loop 0 frames (length out) buf (out, 0)) ! ch ! f =
          deinterleave frames (length out) buf ! ch ! f"
      using ch len f by (simp add: frame_loop_nth deinterleave_def rd_def)
  qed
qed

section \<open>One tick and many ticks\<close>

lemma deinterleave_nth:
  "ch < channels \<Longrightarrow> f < frames \<Longrightarrow>
   deinterleave frames channels samples ! ch ! f = samples ! (f * channels + ch)"
  by (simp add: deinterleave_def)

lemma silence_rect:
  "\<forall>pl\<in>set out. length pl = frames \<Longrightarrow>
   map (\<lambda>pl. replicate (length pl) f32_zero) out =
     replicate (length out) (replicate frames f32_zero)"
  by (induction out) simp_all

lemma hd_rect: "out \<noteq> [] \<Longrightarrow> \<forall>pl\<in>set out. length pl = frames \<Longrightarrow> length (hd out) = frames"
  by (cases out) simp_all

lemma process_drain_rect:
  assumes "out \<noteq> []" and "\<forall>pl\<in>set out. length pl = frames"
    and "frames * length out \<le> length (buffer p)"
  shows "process (out # rest) p =
           Inr (True, deinterleave frames (length out) (buffer p) # rest,
                p\<lparr>buffer := drop (frames * length out) (buffer p)\<rparr>)"
  using assms process_sufficient[of out p rest] 
  by (simp add: hd_rect[OF assms(1,2)] frame_loop_rect)

lemma f32_elems_one_to_four:
  "f32_elems one_to_four = [Num 0x3F800000, Num 0x40000000, Num 0x40400000, Num 0x40800000]"
  by (simp add: one_to_four_def f32_of_bytes_def is_nan_bits_def)

lemma frame_of_deinterleave:
  assumes "f < frames" and "f * channels + channels \<le> length xs"
  shows "map (\<lambda>pl. pl ! f) (deinterleave frames channels xs) = take channels (drop (f * channels) xs)"
proof (rule nth_equalityI)
  show "length (map (\<lambda>pl. pl ! f) (deinterleave frames channels xs)) =
        length (take channels (drop (f * channels) xs))"
    using assms(2) by (simp add: deinterleave_def)
next
  fix ch assume "ch < length (map (\<lambda>pl. pl ! f) (deinterleave frames channels xs))"
  then have ch: "ch < channels" by (simp add: deinterleave_def)
  with assms show "map (\<lambda>pl. pl ! f) (deinterleave frames channels xs) ! ch =
        take channels (drop (f * channels) xs) ! ch"
    by (simp add: deinterleave_def)
qed

lemma concat_frames:
  "frames * channels \<le> length xs \<Longrightarrow>
   concat (map (\<lambda>f. take channels (drop (f * channels) xs)) [0..<frames]) =
     take (frames * channels) xs"
proof (induction frames)
  case 0
  then show ?case by simp
next
  case (Suc n)
  then have "concat (map (\<lambda>f. take channels (drop (f * channels) xs)) [0..<Suc n]) =
      take (n * channels) xs @ take channels (drop (n * channels) xs)"
    by simp
  also have "\<dots> = take (n * channels + channels) xs"
    by (simp add: take_add)
  finally show ?case by (simp add: add.commute)
qed

lemma interleave_deinterleave:
  assumes "frames * channels \<le> length xs"
  shows "interleave frames (deinterleave frames channels xs) = take (frames * channels) xs"
proof -
  have "map (\<lambda>f. map (\<lambda>pl. pl ! f) (deinterleave frames channels xs)) [0..<frames] =
        map (\<lambda>f. take channels (drop (f * channels) xs)) [0..<frames]"
  proof (rule map_cong[OF refl])
    fix f assume "f \<in> set [0..<frames]"
    then have f: "f < frames" by simp
    then have "f * channels + channels = Suc f * channels" by simp
    also have "\<dots> \<le> frames * channels" using f by (simp only: mult_le_mono1 Suc_leI)
    finally have "f * channels + channels \<le> length xs" using assms by simp
    with f show "map (\<lambda>pl. pl ! f) (deinterleave frames channels xs) =
        take channels (drop (f * channels) xs)"
      by (rule frame_of_deinterleave)
  qed
  then show ?thesis
    by (simp only: interleave_def concat_frames[OF assms])
qed

lemma deliver_pcm:
  "\<forall>ab\<in>set Bs. length ab mod 4 = 0 \<Longrightarrow>
   deliver (map pcm Bs) p = Inr (p\<lparr>buffer := buffer p @ concat (map f32_elems Bs)\<rparr>)"
proof (induction Bs arbitrary: p)
  case Nil
  show ?case by simp
next
  case (Cons ab Bs)
  then show ?case by (simp add: port_onmessage_pcm)
qed

lemma length_hd_deinterleave:
  "0 < channels \<Longrightarrow> length (hd (deinterleave frames channels xs)) = frames"
  by (simp add: deinterleave_def hd_map)

lemma process_request:
  assumes "render_request outputs"
    and "frameCount outputs * channelCount outputs \<le> length (buffer p)"
  shows "\<exists>outputs'. process outputs p =
            Inr (True, outputs',
                 p\<lparr>buffer := drop (frameCount outputs * channelCount outputs) (buffer p)\<rparr>) \<and>
          played outputs' = take (frameCount outputs * channelCount outputs) (buffer p)"
proof -
  from assms(1) obtain out rest where o: "outputs = out # rest"
    by (cases outputs) (auto simp: render_request_def)
  from assms(1) have ne: "out \<noteq> []" and rect: "\<forall>pl\<in>set out. length pl = frameCount outputs"
    by (simp_all add: render_request_def o list_all_iff)
  have cc: "channelCount outputs = length out" by (simp add: channelCount_def o)
  let ?out' = "deinterleave (frameCount outputs) (length out) (buffer p)"
  have "process (out # rest) p = Inr (True, ?out' # rest,
      p\<lparr>buffer := drop (frameCount outputs * length out) (buffer p)\<rparr>)"
    using ne rect assms(2)[unfolded cc] by (rule process_drain_rect)
  moreover have "frameCount (?out' # rest) = frameCount outputs"
    using ne by (simp add: frameCount_def length_hd_deinterleave)
  then have "played (?out' # rest) = take (frameCount outputs * length out) (buffer p)"
    using assms(2)[unfolded cc] by (simp add: played_def interleave_deinterleave)
  ultimately show ?thesis unfolding o[symmetric] cc by blast
qed

lemma ticks_drain:
  "\<forall>outputs\<in>set ts. render_request outputs \<Longrightarrow>
   (\<Sum>outputs\<leftarrow>ts. frameCount outputs * channelCount outputs) \<le> length (buffer p) \<Longrightarrow>
   \<exists>rendered. ticks ts p =
       Inr (rendered,
            p\<lparr>buffer := drop (\<Sum>outputs\<leftarrow>ts. frameCount outputs * channelCount outputs) (buffer p)\<rparr>) \<and>
     concat (map played rendered) =
       take (\<Sum>outputs\<leftarrow>ts. frameCount outputs * channelCount outputs) (buffer p)"
proof (induction ts arbitrary: p)
  case Nil
  show ?case by simp
next
  case (Cons outputs ts)
  let ?n = "frameCount outputs * channelCount outputs"
  let ?m = "\<Sum>outputs\<leftarrow>ts. frameCount outputs * channelCount outputs"
  let ?p' = "p\<lparr>buffer := drop ?n (buffer p)\<rparr>"
  from Cons.prems have req: "render_request outputs" and n: "?n \<le> length (buffer p)"
    by simp_all
  from process_request[OF req n] obtain outputs' where
    pr: "process outputs p = Inr (True, outputs', ?p')" and
    pl: "played outputs' = take ?n (buffer p)" by blast
  from Cons.prems have "\<forall>outputs\<in>set ts. render_request outputs" and "?m \<le> length (buffer ?p')"
    by simp_all
  from Cons.IH[OF this] obtain rendered where
    tk: "ticks ts ?p' = Inr (rendered, ?p'\<lparr>buffer := drop ?m (buffer ?p')\<rparr>)" and
    cr: "concat (map played rendered) = take ?m (buffer ?p')" by blast
  have "ticks (outputs # ts) p = Inr (outputs' # rendered, p\<lparr>buffer := drop (?n + ?m) (buffer p)\<rparr>)"
    using pr tk by (simp add: add.commute)
  moreover have "concat (map played (outputs' # rendered)) = take (?n + ?m) (buffer p)"
    using pl cr by (simp add: take_add)
  ultimately show ?case by simp
qed

section \<open>Rounding to binary64\<close>

text \<open>The exponent is the right one, the rounded value is within half a unit in the
  last place, and integers below \<open>2^53\<close> are kept exactly. Two values are computed:
  with a canvas 49 pixels high and 49 rows, pixel row 1 takes matrix row 0, since
  \<open>(1 / 49) * 49\<close> is below 1 in binary64.\<close>

lemma pow2_powi: "pow2 e = 2 powi e"
  by (simp add: pow2_def power_int_def power_one_over inverse_eq_divide)

lemma pow2_pos: "0 < pow2 e"
  by (simp add: pow2_powi)

lemma pow2_add: "pow2 (a + b) = pow2 a * pow2 b"
  by (simp add: pow2_powi power_int_add)

lemma pow2_nat: "pow2 (int n) = 2 ^ n"
  by (simp add: pow2_def)

lemma pow2_mono: "a \<le> b \<Longrightarrow> pow2 a \<le> pow2 b"
  by (simp add: pow2_powi power_int_increasing)

lemma pow2_less: "pow2 a < pow2 b \<Longrightarrow> a < b"
  using pow2_mono[of b a] by (cases "a < b") auto

lemma bits_nonneg: "0 \<le> bits k"
proof (induction k rule: bits.induct)
  case (1 k)
  then show ?case by (subst bits.simps) simp
qed

lemma bits_pos: "0 < k \<Longrightarrow> 1 \<le> bits k"
  by (subst bits.simps) (simp add: bits_nonneg)

lemma bits_bounds: "0 < k \<Longrightarrow> 2 ^ nat (bits k - 1) \<le> k \<and> k < 2 ^ nat (bits k)"
proof (induction k rule: bits.induct)
  case (1 k)
  show ?case
  proof (cases "0 < k div 2")
    case True
    with 1 have ih: "2 ^ nat (bits (k div 2) - 1) \<le> k div 2" "k div 2 < 2 ^ nat (bits (k div 2))"
      by simp_all
    from True have b: "1 \<le> bits (k div 2)" by (rule bits_pos)
    have e: "bits k = 1 + bits (k div 2)" using 1(2) by (subst bits.simps) simp
    from b have n: "nat (bits k - 1) = Suc (nat (bits (k div 2) - 1))"
      "nat (bits k) = Suc (nat (bits (k div 2)))" "nat (bits (k div 2)) = Suc (nat (bits (k div 2) - 1))"
      unfolding e by simp_all
    from ih show ?thesis unfolding n by simp linarith
  next
    case False
    with 1(2) have "k = 1" by (simp add: div_pos_pos_trivial pos_imp_zdiv_pos_iff)
    then show ?thesis by (simp add: bits.simps[of 1] bits.simps[of 0])
  qed
qed

lemma pow2_le_int: "0 \<le> e \<Longrightarrow> 2 ^ nat e \<le> k \<Longrightarrow> pow2 e \<le> of_int k"
proof -
  assume e: "0 \<le> e" and "2 ^ nat e \<le> k"
  then have "(of_int (2 ^ nat e) :: rat) \<le> of_int k" by (simp only: of_int_le_iff)
  with e show ?thesis by (simp add: pow2_def)
qed

lemma int_less_pow2: "0 \<le> e \<Longrightarrow> k < 2 ^ nat e \<Longrightarrow> of_int k < pow2 e"
proof -
  assume e: "0 \<le> e" and "k < 2 ^ nat e"
  then have "(of_int k :: rat) < of_int (2 ^ nat e)" by (simp only: of_int_less_iff)
  with e show ?thesis by (simp add: pow2_def)
qed

lemma ilog2_bounds:
  assumes "0 < x"
  shows "pow2 (ilog2 x) \<le> x \<and> x < pow2 (ilog2 x + 1)"
proof -
  obtain p q where pq: "quotient_of x = (p, q)" by (cases "quotient_of x")
  then have q: "0 < q" by (rule quotient_of_denom_pos)
  from pq have x: "x = of_int p / of_int q" by (rule quotient_of_div)
  with assms q have p: "0 < p" by (simp add: zero_less_divide_iff)
  let ?d = "bits p - bits q"
  from bits_bounds[OF p] bits_bounds[OF q]
  have bp: "2 ^ nat (bits p - 1) \<le> p" "p < 2 ^ nat (bits p)"
    and bq: "2 ^ nat (bits q - 1) \<le> q" "q < 2 ^ nat (bits q)" by simp_all
  have P: "pow2 (bits p - 1) \<le> of_int p" "(of_int p :: rat) < pow2 (bits p)"
    and Q: "pow2 (bits q - 1) \<le> of_int q" "(of_int q :: rat) < pow2 (bits q)"
    using bp bq bits_pos[OF p] bits_pos[OF q]
    by (simp_all add: pow2_le_int int_less_pow2)
  have qr: "(0::rat) < of_int q" using q by simp
  have lo: "pow2 (?d - 1) < x"
  proof -
    have "pow2 (?d - 1) * pow2 (bits q) = pow2 (bits p - 1)"
      by (simp flip: pow2_add)
    then have "pow2 (?d - 1) * of_int q < pow2 (bits p - 1)"
      using Q(2) pow2_pos[of "?d - 1"] qr
      by (metis mult_less_cancel_left_pos)
    also have "\<dots> \<le> of_int p" by (rule P(1))
    finally show ?thesis using qr by (simp add: x pos_less_divide_eq)
  qed
  have hi: "x < pow2 (?d + 1)"
  proof -
    have "of_int p < pow2 (bits p)" by (rule P(2))
    also have "pow2 (bits p) = pow2 (?d + 1) * pow2 (bits q - 1)"
      by (simp flip: pow2_add)
    also have "\<dots> \<le> pow2 (?d + 1) * of_int q"
      using Q(1) pow2_pos[of "?d + 1"] by simp
    finally show ?thesis using qr by (simp add: x pos_divide_less_eq)
  qed
  show ?thesis
  proof (cases "pow2 ?d \<le> x")
    case True
    with hi show ?thesis by (simp add: ilog2_def pq)
  next
    case False
    with lo show ?thesis by (simp add: ilog2_def pq)
  qed
qed

lemma rne_int: "rne (of_int k) = k"
  by (simp add: rne_def)

lemma rne_near: "\<bar>of_int (rne x) - x\<bar> \<le> 1 / 2"
proof -
  have "of_int \<lfloor>x\<rfloor> \<le> x" "x < of_int \<lfloor>x\<rfloor> + 1" by linarith+
  then show ?thesis by (auto simp: rne_def Let_def)
qed

lemma pow2_inverse: "pow2 e * pow2 (- e) = 1"
  by (simp flip: pow2_add) (simp add: pow2_def)

lemma round64_near:
  assumes "0 < x" and "round64 x = Finite r"
  shows "\<bar>r - x\<bar> \<le> pow2 (max (ilog2 x) (- 1022) - 53)"
proof -
  let ?e = "max (ilog2 x) (- 1022)"
  let ?ulp = "pow2 (?e - 52)"
  let ?m = "rne (x / ?ulp)"
  from assms have r: "r = of_int ?m * ?ulp"
    by (simp add: round64_def Let_def split: if_splits)
  have u: "0 < ?ulp" by (rule pow2_pos)
  have "(of_int ?m - x / ?ulp) * ?ulp = r - x"
    using u by (simp add: r left_diff_distrib)
  then have "\<bar>r - x\<bar> = \<bar>of_int ?m - x / ?ulp\<bar> * ?ulp"
    using u by (metis abs_mult abs_of_pos)
  also have "\<dots> \<le> 1 / 2 * ?ulp"
    using rne_near[of "x / ?ulp"] u by (simp only: mult_le_cancel_right_pos)
  also have "1 / 2 * ?ulp = pow2 (?e - 53)"
  proof -
    have "pow2 (?e - 52) = pow2 (?e - 53) * pow2 1" by (simp flip: pow2_add)
    then show ?thesis by (simp add: pow2_def)
  qed
  finally show ?thesis .
qed

lemma round64_nat:
  assumes "n < 2 ^ 53"
  shows "round64 (of_nat n) = Finite (of_nat n)"
proof (cases "n = 0")
  case True
  then show ?thesis by (simp add: round64_def)
next
  case False
  let ?x = "of_nat n :: rat"
  let ?e = "ilog2 ?x"
  from False have x: "0 < ?x" by simp
  from ilog2_bounds[OF x] have lo: "pow2 ?e \<le> ?x" and hi: "?x < pow2 (?e + 1)" by simp_all
  from False have "pow2 0 \<le> ?x" by (simp add: pow2_def)
  with hi have "pow2 0 < pow2 (?e + 1)" by simp
  then have e0: "0 \<le> ?e" using pow2_less by fastforce
  from assms have "?x < of_nat (2 ^ 53)" by (simp only: of_nat_less_iff)
  also have "(of_nat (2 ^ 53) :: rat) = pow2 53" by (simp add: pow2_def)
  finally have "?x < pow2 53" .
  with lo have "pow2 ?e < pow2 53" by simp
  then have e53: "?e < 53" by (rule pow2_less)
  let ?ulp = "pow2 (?e - 52)"
  have inv: "pow2 (52 - ?e) * ?ulp = 1"
    using pow2_inverse[of "52 - ?e"] by simp
  have u: "0 < ?ulp" by (rule pow2_pos)
  have "?x / ?ulp = ?x * pow2 (52 - ?e)"
    using inv u by (simp add: field_simps)
  also have "\<dots> = of_int (int n * 2 ^ nat (52 - ?e))"
    using e53 by (simp add: pow2_def)
  finally have m: "rne (?x / ?ulp) = int n * 2 ^ nat (52 - ?e)"
    by (simp only: rne_int)
  have bk: "of_int (int n * 2 ^ nat (52 - ?e)) * ?ulp = ?x"
  proof -
    have "of_int (int n * 2 ^ nat (52 - ?e)) * ?ulp = ?x * (pow2 (52 - ?e) * ?ulp)"
      using e53 by (simp add: pow2_def)
    then show ?thesis by (simp only: inv mult_1_right)
  qed
  have mx: "max ?e (- 1022) = ?e" using e0 by simp
  have ab: "\<bar>?x\<bar> = ?x" by simp
  from x e53 False show ?thesis
    unfolding round64_def Let_def ab mx m bk by simp
qed

lemma rne_nonneg: "0 \<le> x \<Longrightarrow> 0 \<le> rne x"
proof -
  assume "0 \<le> x"
  then have "0 \<le> \<lfloor>x\<rfloor>" by simp
  then show ?thesis by (auto simp: rne_def Let_def)
qed

lemma round64_finite:
  assumes "0 < x" and "ilog2 x < 1023"
  shows "\<exists>r. round64 x = Finite r \<and> 0 \<le> r \<and> \<bar>r - x\<bar> \<le> pow2 (max (ilog2 x) (- 1022) - 53)"
proof -
  let ?e = "max (ilog2 x) (- 1022)"
  let ?ulp = "pow2 (?e - 52)"
  let ?r = "of_int (rne (x / ?ulp)) * ?ulp"
  from assms(2) have e: "?e < 1023" by simp
  have ab: "\<bar>x\<bar> = x" using assms(1) by simp
  from e have c: "\<not> (1024 \<le> ?e \<or> (?e = 1023 \<and> 9007199254740992 \<le> rne (x / ?ulp)))"
    by linarith
  from assms(1) have "x \<noteq> 0" by simp
  then have r: "round64 x = Finite ?r"
    unfolding round64_def Let_def ab using assms(1) by (simp only: if_not_P[OF c] if_False if_True)
  have u: "0 < ?ulp" by (rule pow2_pos)
  with assms(1) have "0 \<le> x / ?ulp" by simp
  then have "0 \<le> rne (x / ?ulp)" by (rule rne_nonneg)
  with u have "0 \<le> ?r" by simp
  with r round64_near[OF assms(1) r] show ?thesis by blast
qed

lemma ilog2_less: "0 < x \<Longrightarrow> x < pow2 b \<Longrightarrow> ilog2 x < b"
proof -
  assume x: "0 < x" and "x < pow2 b"
  with ilog2_bounds[OF x] have "pow2 (ilog2 x) < pow2 b" by simp
  then show ?thesis by (rule pow2_less)
qed

lemma row_in_range:
  assumes "y < h" and "h \<le> 2 ^ 32" and "0 < rows" and "rows \<le> 2 ^ 32"
  shows "\<exists>r<rows. js_floor (dmul (ratio y h) (of_len rows)) = Finite (of_nat r)"
proof (cases "y = 0")
  case True
  with assms(1) have "ratio y h = Finite 0" by (simp add: ratio_def round64_def)
  then have "js_floor (dmul (ratio y h) (of_len rows)) = Finite (of_nat 0)"
    by (simp add: of_len_def round64_def)
  with assms(3) show ?thesis by blast
next
  case False
  let ?x = "of_nat y / of_nat h :: rat"
  let ?R = "of_nat rows :: rat"
  from assms(1) have h0: "(0::rat) < of_nat h" by simp
  from False h0 have x0: "0 < ?x" by simp
  from assms(1) have "(of_nat (Suc y) :: rat) \<le> of_nat h"
    by (simp only: of_nat_le_iff Suc_le_eq)
  then have "of_nat y + 1 \<le> (of_nat h :: rat)" by simp
  then have x1: "?x \<le> 1 - 1 / of_nat h" using h0 by (simp add: field_simps)
  from assms(2) have "(of_nat h :: rat) \<le> of_nat (2 ^ 32)" by (simp only: of_nat_le_iff)
  then have "(of_nat h :: rat) \<le> 2 ^ 32" by simp
  with h0 have "1 / 2 ^ 32 \<le> 1 / (of_nat h :: rat)" by (simp only: frac_le zero_le_one le_refl)
  moreover have "pow2 (- 32) = 1 / 2 ^ 32" by (simp add: pow2_def)
  ultimately have "pow2 (- 32) \<le> 1 / (of_nat h :: rat)" by simp
  with x1 have x2: "?x \<le> 1 - pow2 (- 32)" by linarith
  moreover have "pow2 0 = 1" by (simp add: pow2_def)
  ultimately have "?x < pow2 0" using pow2_pos[of "- 32"] by linarith
  with x0 have lx: "ilog2 ?x < 0" by (rule ilog2_less)
  then have "ilog2 ?x < 1023" by simp
  from round64_finite[OF x0 this] obtain q where
    q: "round64 ?x = Finite q" and q0: "0 \<le> q" and
    qn: "\<bar>q - ?x\<bar> \<le> pow2 (max (ilog2 ?x) (- 1022) - 53)" by blast
  from lx have "max (ilog2 ?x) (- 1022) - 53 \<le> - 54" by simp
  then have "pow2 (max (ilog2 ?x) (- 1022) - 53) \<le> pow2 (- 54)" by (rule pow2_mono)
  with qn have "q \<le> ?x + pow2 (- 54)" by linarith
  with x2 have qB: "q \<le> 1 - pow2 (- 32) + pow2 (- 54)" by linarith
  from assms(1) q have ratio: "ratio y h = Finite q" by (simp add: ratio_def)
  have R0: "0 < ?R" using assms(3) by simp
  from assms(4) have "?R \<le> of_nat (2 ^ 32)" by (simp only: of_nat_le_iff)
  then have R32: "?R \<le> pow2 32" by (simp add: pow2_def)
  have mul: "dmul (ratio y h) (of_len rows) = round64 (q * ?R)"
    by (simp add: ratio of_len_def)
  show ?thesis
  proof (cases "q = 0")
    case True
    then have "js_floor (dmul (ratio y h) (of_len rows)) = Finite (of_nat 0)"
      by (simp add: mul round64_def)
    with assms(3) show ?thesis by blast
  next
    case False
    let ?z = "q * ?R"
    from False q0 R0 have z0: "0 < ?z" by simp
    have zB: "?z \<le> (1 - pow2 (- 32) + pow2 (- 54)) * ?R"
      using qB R0 by (simp only: mult_le_cancel_right_pos)
    have "(1 - pow2 (- 32) + pow2 (- 54)) < (1::rat)" by (simp add: pow2_def)
    then have "(1 - pow2 (- 32) + pow2 (- 54)) * ?R < 1 * ?R"
      using R0 by (simp only: mult_less_cancel_right_pos)
    with zB have zR: "?z < ?R" by simp
    with R32 have "?z < pow2 32" by simp
    with z0 have lz: "ilog2 ?z < 32" by (rule ilog2_less)
    then have "ilog2 ?z < 1023" by simp
    from round64_finite[OF z0 this] obtain p where
      p: "round64 ?z = Finite p" and p0: "0 \<le> p" and
      pn: "\<bar>p - ?z\<bar> \<le> pow2 (max (ilog2 ?z) (- 1022) - 53)" by blast
    have "pow2 (max (ilog2 ?z) (- 1022)) \<le> ?R"
    proof (cases "- 1022 \<le> ilog2 ?z")
      case True
      then have "max (ilog2 ?z) (- 1022) = ilog2 ?z" by simp
      with ilog2_bounds[OF z0] zR show ?thesis by simp
    next
      case False
      then have "max (ilog2 ?z) (- 1022) = - 1022" by simp
      moreover have "pow2 (- 1022) \<le> pow2 0" by (rule pow2_mono) simp
      moreover have "pow2 0 \<le> ?R" using assms(3) by (simp add: pow2_def)
      ultimately show ?thesis by simp
    qed
    moreover have "pow2 (max (ilog2 ?z) (- 1022) - 53) =
        pow2 (max (ilog2 ?z) (- 1022)) * pow2 (- 53)"
      by (simp flip: pow2_add)
    ultimately have "pow2 (max (ilog2 ?z) (- 1022) - 53) \<le> ?R * pow2 (- 53)"
      using pow2_pos[of "- 53"] by (simp only: mult_le_cancel_right_pos)
    with pn have "p \<le> ?z + ?R * pow2 (- 53)" by linarith
    with zB have "p \<le> (1 - pow2 (- 32) + pow2 (- 54)) * ?R + ?R * pow2 (- 53)" by linarith
    also have "\<dots> = (1 - pow2 (- 32) + pow2 (- 54) + pow2 (- 53)) * ?R"
      by (simp add: algebra_simps)
    also have "\<dots> < 1 * ?R"
    proof -
      have "(1 - pow2 (- 32) + pow2 (- 54) + pow2 (- 53)) < (1::rat)" by (simp add: pow2_def)
      then show ?thesis using R0 by (simp only: mult_less_cancel_right_pos)
    qed
    finally have pR: "p < ?R" by simp
    from p0 have f0: "0 \<le> \<lfloor>p\<rfloor>" by simp
    from pR have "\<lfloor>p\<rfloor> < int rows" by (simp add: floor_less_iff)
    then have "nat \<lfloor>p\<rfloor> < rows" by (simp only: nat_less_iff[OF f0])
    moreover from f0 have "js_floor (dmul (ratio y h) (of_len rows)) = Finite (of_nat (nat \<lfloor>p\<rfloor>))"
      by (simp add: mul p)
    ultimately show ?thesis by blast
  qed
qed

lemma row_49: "js_floor (dmul (ratio 1 49) (of_len 49)) = Finite 0"
  by code_simp

lemma tenth: "round64 (1 / 10) = Finite (3602879701896397 / 36028797018963968)"
  by code_simp

section \<open>The pixel loop\<close>

lemma put_rgba_length: "length (put_rgba img i c) = length img"
  by (simp add: put_rgba_def)

lemma put_rgba_other: "j < i \<or> i + 4 \<le> j \<Longrightarrow> put_rgba img i c ! j = img ! j"
  by (auto simp: put_rgba_def)

lemma put_rgba_here:
  "i + 4 \<le> length img \<Longrightarrow> k < 4 \<Longrightarrow> put_rgba img i c ! (i + k) = rgba c ! k"
proof -
  assume a: "i + 4 \<le> length img" "k < 4"
  then consider "k = 0" | "k = 1" | "k = 2" | "k = 3" by linarith
  then show ?thesis
    using a by cases (simp_all add: put_rgba_def rgba_def nth_list_update)
qed

lemma x_loop_done: "\<not> x < w \<Longrightarrow> x_loop m row cols y w x img = Inr img"
  by (subst x_loop.simps) simp

lemma x_loop_fault:
  "x < w \<Longrightarrow> js_elem m row = None \<Longrightarrow> x_loop m row cols y w x img = Inl TypeError"
  by (subst x_loop.simps) simp

lemma x_loop_step:
  "x < w \<Longrightarrow> js_elem m row = Some cells \<Longrightarrow>
   x_loop m row cols y w x img =
     x_loop m row cols y w (Suc x)
       (put_rgba img ((y * w + x) * 4)
          (colour (js_elem cells (js_floor (dmul (ratio x w) (of_len cols))))))"
  by (subst x_loop.simps) (simp add: Let_def)

lemma x_loop_row:
  assumes "x_loop m row cols y w x img = Inr img'" and "x < w"
  shows "\<exists>cells. js_elem m row = Some cells"
proof (cases "js_elem m row")
  case None
  with assms show ?thesis by (simp add: x_loop_fault)
next
  case (Some cells)
  then show ?thesis by simp
qed

lemma x_loop_length:
  "x_loop m row cols y w x img = Inr img' \<Longrightarrow> length img' = length img"
proof (induction "w - x" arbitrary: x img)
  case 0
  then show ?case by (simp add: x_loop_done)
next
  case (Suc n)
  then have x: "x < w" by simp
  with Suc.prems obtain cells where c: "js_elem m row = Some cells"
    using x_loop_row by blast
  from Suc.hyps(2) have "n = w - Suc x" by simp
  from Suc.hyps(1)[OF this Suc.prems[unfolded x_loop_step[OF x c]]]
  show ?case by (simp add: put_rgba_length)
qed

lemma x_loop_outside:
  "x_loop m row cols y w x img = Inr img' \<Longrightarrow> j < (y * w + x) * 4 \<or> (y * w + w) * 4 \<le> j \<Longrightarrow>
   img' ! j = img ! j"
proof (induction "w - x" arbitrary: x img)
  case 0
  then show ?case by (simp add: x_loop_done)
next
  case (Suc n)
  then have x: "x < w" by simp
  with Suc.prems obtain cells where c: "js_elem m row = Some cells"
    using x_loop_row by blast
  from Suc.hyps(2) have n: "n = w - Suc x" by simp
  from Suc.prems(2) x have j: "j < (y * w + Suc x) * 4 \<or> (y * w + w) * 4 \<le> j" by auto
  from Suc.prems(2) x have j': "j < (y * w + x) * 4 \<or> (y * w + x) * 4 + 4 \<le> j" by auto
  from Suc.hyps(1)[OF n Suc.prems(1)[unfolded x_loop_step[OF x c]] j]
  show ?case by (simp only: put_rgba_other[OF j'])
qed

lemma x_loop_inside:
  assumes "x_loop m row cols y w x img = Inr img'" and "js_elem m row = Some cells"
    and "(y * w + w) * 4 \<le> length img" and "x \<le> x'" and "x' < w" and "k < 4"
  shows "img' ! ((y * w + x') * 4 + k) =
           rgba (colour (js_elem cells (js_floor (dmul (ratio x' w) (of_len cols))))) ! k"
  using assms(1,3,4)
proof (induction "w - x" arbitrary: x img)
  case 0
  with assms(5) show ?case by simp
next
  case (Suc n)
  then have x: "x < w" by simp
  let ?img1 = "put_rgba img ((y * w + x) * 4)
      (colour (js_elem cells (js_floor (dmul (ratio x w) (of_len cols)))))"
  from Suc.hyps(2) have n: "n = w - Suc x" by simp
  have r: "x_loop m row cols y w (Suc x) ?img1 = Inr img'"
    using Suc.prems(1) by (simp only: x_loop_step[OF x assms(2)])
  show ?case
  proof (cases "x' = x")
    case True
    from \<open>k < 4\<close> have "(y * w + x) * 4 + k < (y * w + Suc x) * 4" by simp
    then have "img' ! ((y * w + x) * 4 + k) = ?img1 ! ((y * w + x) * 4 + k)"
      using x_loop_outside[OF r] by blast
    also have "(y * w + x) * 4 + 4 \<le> length img" using x Suc.prems(2) by simp
    then have "?img1 ! ((y * w + x) * 4 + k) =
        rgba (colour (js_elem cells (js_floor (dmul (ratio x w) (of_len cols))))) ! k"
      using \<open>k < 4\<close> by (rule put_rgba_here)
    finally show ?thesis by (simp only: True)
  next
    case False
    with Suc.prems(3) have "Suc x \<le> x'" by simp
    moreover have "(y * w + w) * 4 \<le> length ?img1"
      using Suc.prems(2) by (simp add: put_rgba_length)
    ultimately show ?thesis using Suc.hyps(1)[OF n r] by blast
  qed
qed

lemma y_loop_done: "\<not> y < h \<Longrightarrow> y_loop m rows cols w h y img = Inr img"
  by (subst y_loop.simps) simp

lemma y_loop_step:
  "y < h \<Longrightarrow>
   y_loop m rows cols w h y img =
     (case x_loop m (js_floor (dmul (ratio y h) (of_len rows))) cols y w 0 img of
        Inl e \<Rightarrow> Inl e
      | Inr img1 \<Rightarrow> y_loop m rows cols w h (Suc y) img1)"
  by (subst y_loop.simps) (simp add: Let_def)

lemma y_loop_row:
  assumes "y_loop m rows cols w h y img = Inr img'" and "y < h"
  obtains img1 where "x_loop m (js_floor (dmul (ratio y h) (of_len rows))) cols y w 0 img = Inr img1"
    and "y_loop m rows cols w h (Suc y) img1 = Inr img'"
  using assms by (simp add: y_loop_step split: sum.splits)

lemma y_loop_length:
  "y_loop m rows cols w h y img = Inr img' \<Longrightarrow> length img' = length img"
proof (induction "h - y" arbitrary: y img)
  case 0
  then show ?case by (simp add: y_loop_done)
next
  case (Suc n)
  then have y: "y < h" by simp
  from Suc.prems y obtain img1 where
    x: "x_loop m (js_floor (dmul (ratio y h) (of_len rows))) cols y w 0 img = Inr img1" and
    r: "y_loop m rows cols w h (Suc y) img1 = Inr img'" by (rule y_loop_row)
  from Suc.hyps(2) have "n = h - Suc y" by simp
  from Suc.hyps(1)[OF this r] x_loop_length[OF x] show ?case by simp
qed

lemma y_loop_outside:
  "y_loop m rows cols w h y img = Inr img' \<Longrightarrow> j < y * w * 4 \<Longrightarrow> img' ! j = img ! j"
proof (induction "h - y" arbitrary: y img)
  case 0
  then show ?case by (simp add: y_loop_done)
next
  case (Suc n)
  then have y: "y < h" by simp
  from Suc.prems(1) y obtain img1 where
    x: "x_loop m (js_floor (dmul (ratio y h) (of_len rows))) cols y w 0 img = Inr img1" and
    r: "y_loop m rows cols w h (Suc y) img1 = Inr img'" by (rule y_loop_row)
  from Suc.hyps(2) have n: "n = h - Suc y" by simp
  from Suc.prems(2) have "j < Suc y * w * 4" by simp
  from Suc.hyps(1)[OF n r this] have "img' ! j = img1 ! j" .
  also from Suc.prems(2) have "j < (y * w + 0) * 4 \<or> (y * w + w) * 4 \<le> j" by simp
  from x_loop_outside[OF x this] have "img1 ! j = img ! j" .
  finally show ?case .
qed

lemma y_loop_inside:
  assumes "y_loop m rows cols w h y img = Inr img'" and "h * w * 4 \<le> length img"
    and "y \<le> y'" and "y' < h" and "x' < w" and "k < 4"
  shows "\<exists>cells. js_elem m (js_floor (dmul (ratio y' h) (of_len rows))) = Some cells \<and>
           img' ! ((y' * w + x') * 4 + k) =
             rgba (colour (js_elem cells (js_floor (dmul (ratio x' w) (of_len cols))))) ! k"
  using assms(1,2,3)
proof (induction "h - y" arbitrary: y img)
  case 0
  with assms(4) show ?case by simp
next
  case (Suc n)
  then have y: "y < h" by simp
  let ?row = "js_floor (dmul (ratio y h) (of_len rows))"
  from Suc.prems(1) y obtain img1 where
    x: "x_loop m ?row cols y w 0 img = Inr img1" and
    r: "y_loop m rows cols w h (Suc y) img1 = Inr img'" by (rule y_loop_row)
  from Suc.hyps(2) have n: "n = h - Suc y" by simp
  have len1: "length img1 = length img" using x by (rule x_loop_length)
  show ?case
  proof (cases "y' = y")
    case True
    from x assms(5) obtain cells where c: "js_elem m ?row = Some cells"
      using x_loop_row by blast
    from y have "Suc y * w \<le> h * w" by (simp only: mult_le_mono1 Suc_leI)
    then have fit: "(y * w + w) * 4 \<le> length img" using Suc.prems(2) by simp
    from \<open>x' < w\<close> \<open>k < 4\<close> have "(y * w + x') * 4 + k < Suc y * w * 4" by simp
    from y_loop_outside[OF r this] have "img' ! ((y * w + x') * 4 + k) = img1 ! ((y * w + x') * 4 + k)" .
    also have "\<dots> = rgba (colour (js_elem cells (js_floor (dmul (ratio x' w) (of_len cols))))) ! k"
      using x c fit _ assms(5,6) by (rule x_loop_inside) simp
    finally show ?thesis using c by (simp only: True) blast
  next
    case False
    with Suc.prems(3) have "Suc y \<le> y'" by simp
    moreover have "h * w * 4 \<le> length img1" using Suc.prems(2) len1 by simp
    ultimately show ?thesis using Suc.hyps(1)[OF n r] by blast
  qed
qed

lemma those_map_length: "those (map f xs) = Some ys \<Longrightarrow> length ys = length xs"
  by (induction xs arbitrary: ys) (auto split: option.splits)

lemma those_map_hd: "those (map f xs) = Some ys \<Longrightarrow> xs \<noteq> [] \<Longrightarrow> f (hd xs) = Some (hd ys)"
  by (cases xs) (auto split: option.splits)

lemma num_row_Arr:
  assumes "num_row r = Some cells"
  obtains cs where "r = Arr cs" and "length cs = length cells"
  using assms by (cases r) (auto dest: those_map_length)

lemma num_matrix_Arr:
  assumes "num_matrix matrix = Some m"
  shows "\<exists>rows. matrix = Arr rows \<and> length rows = length m \<and>
           (rows \<noteq> [] \<longrightarrow> num_row (hd rows) = Some (hd m))"
proof (cases matrix)
  case (Arr rows)
  with assms have t: "those (map num_row rows) = Some m" by simp
  from those_map_length[OF t] those_map_hd[OF t] Arr show ?thesis by simp
qed (use assms in simp_all)

lemma drawSpectrogram_numeric:
  assumes "spec_canvas a = Some cv" and "num_matrix matrix = Some m"
    and "drawSpectrogram other matrix a = (a', None)"
  obtains img where "pixel_loop m (length m) (length (hd m)) (width cv) (height cv) = Inr img"
    and "a' = a\<lparr>spec_canvas := Some (cv\<lparr>pixels := img\<rparr>)\<rparr>"
    and "0 < width cv" and "0 < height cv"
proof -
  from num_matrix_Arr[OF assms(2)] obtain rows where
    m: "matrix = Arr rows" and len: "length rows = length m"
    and hd: "rows \<noteq> [] \<Longrightarrow> num_row (hd rows) = Some (hd m)"
    by blast
  have ne: "rows \<noteq> []"
  proof
    assume "rows = []"
    with assms(1,3) m show False by (simp add: drawSpectrogram_def)
  qed
  then obtain r0 rest where rows: "rows = r0 # rest" by (cases rows) auto
  from hd[OF ne] rows have "num_row r0 = Some (hd m)" by simp
  then obtain cs where r0: "r0 = Arr cs" and lcs: "length cs = length (hd m)"
    by (rule num_row_Arr)
  have wh: "0 < width cv \<and> 0 < height cv"
  proof (rule ccontr)
    assume "\<not> (0 < width cv \<and> 0 < height cv)"
    then have "width cv = 0 \<or> height cv = 0" by simp
    with assms(1,3) m rows r0 show False by (simp add: drawSpectrogram_def)
  qed
  from assms(1,2,3) m rows r0 wh len lcs
  have "case pixel_loop m (length m) (length (hd m)) (width cv) (height cv) of
          Inl e \<Rightarrow> False
        | Inr img \<Rightarrow> a' = a\<lparr>spec_canvas := Some (cv\<lparr>pixels := img\<rparr>)\<rparr>"
    by (auto simp: drawSpectrogram_def Let_def split: sum.splits)
  with wh that show thesis by (auto split: sum.splits)
qed

lemma js_elem_nat: "r < length xs \<Longrightarrow> js_elem xs (Finite (of_nat r)) = Some (xs ! r)"
  by (simp add: js_elem_def)

lemma x_loop_total:
  "js_elem m row = Some cells \<Longrightarrow> \<exists>img'. x_loop m row cols y w x img = Inr img'"
proof (induction "w - x" arbitrary: x img)
  case 0
  then show ?case by (simp add: x_loop_done)
next
  case (Suc n)
  then have x: "x < w" and n: "n = w - Suc x" by simp_all
  from Suc.hyps(1)[OF n Suc.prems] show ?case
    by (simp only: x_loop_step[OF x Suc.prems])
qed

lemma y_loop_total:
  assumes "\<forall>y'<h. \<exists>cells. js_elem m (js_floor (dmul (ratio y' h) (of_len rows))) = Some cells"
  shows "\<exists>img'. y_loop m rows cols w h y img = Inr img'"
proof (induction "h - y" arbitrary: y img)
  case 0
  then show ?case by (simp add: y_loop_done)
next
  case (Suc n)
  then have y: "y < h" and n: "n = h - Suc y" by simp_all
  from assms y obtain cells where
    "js_elem m (js_floor (dmul (ratio y h) (of_len rows))) = Some cells" by blast
  from x_loop_total[OF this] obtain img1 where
    "x_loop m (js_floor (dmul (ratio y h) (of_len rows))) cols y w 0 img = Inr img1" by blast
  with Suc.hyps(1)[OF n, of img1] show ?case
    by (simp add: y_loop_step[OF y])
qed

lemma pixel_loop_total:
  assumes "m \<noteq> []" and "length m \<le> 2 ^ 32" and "h \<le> 2 ^ 32"
  shows "\<exists>img. pixel_loop m (length m) cols w h = Inr img"
proof -
  have "\<exists>cells. js_elem m (js_floor (dmul (ratio y h) (of_len (length m)))) = Some cells"
    if "y < h" for y
  proof -
    from assms(1) have "0 < length m" by simp
    from row_in_range[OF that assms(3) this assms(2)] obtain r where
      "r < length m" "js_floor (dmul (ratio y h) (of_len (length m))) = Finite (of_nat r)"
      by blast
    then show ?thesis by (simp add: js_elem_nat)
  qed
  then show ?thesis unfolding pixel_loop_def by (intro y_loop_total) blast
qed

lemma drawn_pixels:
  assumes "spec_canvas a = Some cv" and "num_matrix matrix = Some m"
    and "drawSpectrogram other matrix a = (a', None)"
  shows "\<exists>img. a' = a\<lparr>spec_canvas := Some (cv\<lparr>pixels := img\<rparr>)\<rparr> \<and>
           length img = 4 * width cv * height cv \<and>
           (\<forall>y<height cv. \<forall>x<width cv. \<exists>cells.
              js_elem m (js_floor (dmul (ratio y (height cv)) (of_len (length m)))) = Some cells \<and>
              (let v = js_elem cells
                         (js_floor (dmul (ratio x (width cv)) (of_len (length (hd m)))));
                   c = js_max (Finite 0)
                         (js_min (Finite 255) (dmul (dadd (to_number v) (Finite 80)) (Finite 3)))
               in take 4 (drop ((y * width cv + x) * 4) img) =
                    [to_uint8_clamp c, 0, to_uint8_clamp (dsub (Finite 255) c), 255]))"
proof -
  let ?w = "width cv" and ?h = "height cv"
  from assms obtain img where
    loop: "pixel_loop m (length m) (length (hd m)) ?w ?h = Inr img" and
    a': "a' = a\<lparr>spec_canvas := Some (cv\<lparr>pixels := img\<rparr>)\<rparr>"
    by (rule drawSpectrogram_numeric)
  let ?img0 = "replicate (4 * ?w * ?h) (0::byte)"
  from loop have y: "y_loop m (length m) (length (hd m)) ?w ?h 0 ?img0 = Inr img"
    by (simp add: pixel_loop_def)
  from y_loop_length[OF y] have len: "length img = 4 * ?w * ?h" by simp
  have fit: "?h * ?w * 4 \<le> length ?img0" by simp
  have px: "\<exists>cells.
      js_elem m (js_floor (dmul (ratio y ?h) (of_len (length m)))) = Some cells \<and>
      take 4 (drop ((y * ?w + x) * 4) img) =
        rgba (colour (js_elem cells (js_floor (dmul (ratio x ?w) (of_len (length (hd m)))))))"
    if yx: "y < ?h" "x < ?w" for y x
  proof -
    have y0: "0 \<le> y" by simp
    have k0: "(0::nat) < 4" by simp
    from y_loop_inside[OF y fit y0 yx k0] obtain cells where
      c: "js_elem m (js_floor (dmul (ratio y ?h) (of_len (length m)))) = Some cells"
      by auto
    let ?px = "rgba (colour (js_elem cells (js_floor (dmul (ratio x ?w) (of_len (length (hd m)))))))"
    have nth: "img ! ((y * ?w + x) * 4 + k) = ?px ! k" if "k < 4" for k
      using y_loop_inside[OF y fit y0 yx that] c by auto
    from yx have "Suc (y * ?w + x) \<le> Suc y * ?w" by simp
    also from yx(1) have "\<dots> \<le> ?h * ?w" by (simp only: mult_le_mono1 Suc_leI)
    finally have "Suc (y * ?w + x) * 4 \<le> ?h * ?w * 4" by (simp only: mult_le_mono1)
    then have room: "(y * ?w + x) * 4 + 4 \<le> length img" by (simp add: len mult.commute)
    have "take 4 (drop ((y * ?w + x) * 4) img) = ?px"
    proof (rule nth_equalityI)
      show "length (take 4 (drop ((y * ?w + x) * 4) img)) = length ?px"
        using room by (simp add: rgba_def)
    next
      fix k assume "k < length (take 4 (drop ((y * ?w + x) * 4) img))"
      then have k: "k < 4" by simp
      with room have "take 4 (drop ((y * ?w + x) * 4) img) ! k = img ! ((y * ?w + x) * 4 + k)"
        by simp
      then show "take 4 (drop ((y * ?w + x) * 4) img) ! k = ?px ! k"
        by (simp only: nth[OF k])
    qed
    with c show ?thesis by blast
  qed
  have "\<forall>y<?h. \<forall>x<?w. \<exists>cells.
      js_elem m (js_floor (dmul (ratio y ?h) (of_len (length m)))) = Some cells \<and>
      (let v = js_elem cells (js_floor (dmul (ratio x ?w) (of_len (length (hd m)))));
           c = js_max (Finite 0)
                 (js_min (Finite 255) (dmul (dadd (to_number v) (Finite 80)) (Finite 3)))
       in take 4 (drop ((y * ?w + x) * 4) img) =
            [to_uint8_clamp c, 0, to_uint8_clamp (dsub (Finite 255) c), 255])"
    using px unfolding Let_def rgba_def colour_def by blast
  with a' len show ?thesis by blast
qed

lemma drawSpectrogram_total:
  assumes "spec_canvas a = Some cv" and "num_matrix matrix = Some m"
    and "m \<noteq> []" and "length m \<le> 2 ^ 32"
    and "0 < width cv" and "0 < height cv" and "height cv \<le> 2 ^ 32"
  shows "snd (drawSpectrogram other matrix a) = None"
proof -
  from num_matrix_Arr[OF assms(2)] obtain rows where
    m: "matrix = Arr rows" and len: "length rows = length m"
    and hd: "rows \<noteq> [] \<Longrightarrow> num_row (hd rows) = Some (hd m)"
    by blast
  from len assms(3) have ne: "rows \<noteq> []" by auto
  then obtain r0 rest where rows: "rows = r0 # rest" by (cases rows) auto
  from hd[OF ne] rows have "num_row r0 = Some (hd m)" by simp
  then obtain cs where r0: "r0 = Arr cs" and lcs: "length cs = length (hd m)"
    by (rule num_row_Arr)
  from pixel_loop_total[OF assms(3,4,7)] obtain img where
    "pixel_loop m (length m) (length cs) (width cv) (height cv) = Inr img" by blast
  with assms(1,2,5,6) m rows r0 len show ?thesis
    by (simp add: drawSpectrogram_def Let_def)
qed

section \<open>The text branch\<close>

lemma drawSpectrogram_page:
  "console (fst (drawSpectrogram other matrix a)) = console a \<and>
   playerNode (fst (drawSpectrogram other matrix a)) = playerNode a"
  by (simp add: drawSpectrogram_def Let_def split: option.splits sum.splits)

lemma drawSpectrogram_fault:
  assumes "drawSpectrogram other matrix a = (a', Some e)"
  shows "\<exists>cv. spec_canvas a = Some cv \<and> a' = a\<lparr>spec_canvas := Some (clearRect cv)\<rparr>"
  using assms
  by (auto simp: drawSpectrogram_def Let_def split: option.splits sum.splits if_splits)

lemma try_body_page:
  "console (fst (try_body other parsed a)) = console a \<and>
   playerNode (fst (try_body other parsed a)) = playerNode a"
  by (simp add: try_body_def drawSpectrogram_page split: sum.splits)

lemma try_body_fault:
  assumes "try_body other parsed a = (a', Some e)"
  shows "a' = a \<or> (\<exists>cv. spec_canvas a = Some cv \<and> a' = a\<lparr>spec_canvas := Some (clearRect cv)\<rparr>)"
  using assms
  by (auto simp: try_body_def split: sum.splits if_splits dest: drawSpectrogram_fault)

lemma text_keeps_body:
  "ws_onmessage_text other parsed a = (fst (try_body other parsed a), None)"
  by (cases "try_body other parsed a") (auto simp: ws_onmessage_text_def split: option.splits)

section \<open>The header test of the binary branch\<close>

lemma char_O: "char_of (unat (0x4F :: byte)) = CHR ''O''"
  by code_simp

lemma char_P: "char_of (unat (0x50 :: byte)) = CHR ''P''"
  by code_simp

lemma header_OP: "header (0x4F # 0x50 # payload) = ''OP''"
  by (simp only: header_def nth_Cons_0 One_nat_def nth_Cons_Suc char_O char_P)

section \<open>The claims of the specification\<close>

text \<open>
  Claim C1. A render tick that finds fewer than \<open>frameCount * channelCount\<close> samples
  buffered returns \<open>frameCount\<close> frames for each channel, every value 0.0, and leaves
  the frame buffer as it was. Here \<open>out\<close> is \<open>outputs[0]\<close>: \<open>channels\<close> planes of
  \<open>frames\<close> values each, as the host provides them.
\<close>

theorem underrun_silence:
  assumes "length out = channels" and "\<forall>pl\<in>set out. length pl = frames"
    and "length (buffer p) < frames * channels"
  shows "process (out # rest) p =
           Inr (True, replicate channels (replicate frames f32_zero) # rest, p)"
proof -
  from assms(1,3) have ne: "out \<noteq> []" by auto
  from ne assms(2) have "length (hd out) = frames" by (rule hd_rect)
  with assms(1,3) have "length (buffer p) < length (hd out) * length out" by simp
  with ne have "process (out # rest) p =
      Inr (True, map (\<lambda>pl. replicate (length pl) f32_zero) out # rest, p)"
    by (rule process_underrun)
  then show ?thesis
    unfolding silence_rect[OF assms(2)] assms(1) .
qed

theorem underrun_silence_witness:
  "length [[NaN, NaN], [NaN, NaN]] = 2 \<and>
   list_all (\<lambda>pl. length pl = 2) [[NaN, NaN], [NaN, NaN]] \<and>
   length (buffer \<lparr>buffer = [Num 1, Num 2, Num 3], readIndex = 0\<rparr>) < 2 * 2 \<and>
   process [[[NaN, NaN], [NaN, NaN]]] \<lparr>buffer = [Num 1, Num 2, Num 3], readIndex = 0\<rparr> =
     Inr (True, [[[Num 0, Num 0], [Num 0, Num 0]]],
          \<lparr>buffer = [Num 1, Num 2, Num 3], readIndex = 0\<rparr>)"
  using underrun_silence [of "[[NaN, NaN], [NaN, NaN]]" 2 2
      "\<lparr>buffer = [Num 1, Num 2, Num 3], readIndex = 0\<rparr>" "[]"]
  by (simp add: numeral_2_eq_2 f32_zero_def)

text \<open>
  Claim C2. Whatever batches are appended, successive render ticks whose frame counts
  add up to the number of buffered samples return the samples in the order of the
  concatenated batches: first what was buffered before, then batch after batch, nothing
  reordered, and the buffer is empty in the end. Each batch is the \<open>ArrayBuffer\<close> of a
  \<open>pcm\<close> message, whose length is a multiple of four bytes.
\<close>

theorem fifo_order:
  assumes "\<forall>ab\<in>set Bs. length ab mod 4 = 0"
    and "\<forall>outputs\<in>set ts. render_request outputs"
    and "(\<Sum>outputs\<leftarrow>ts. frameCount outputs * channelCount outputs) =
           length (buffer p) + length (concat (map f32_elems Bs))"
  shows "\<exists>p1 rendered p2.
           deliver (map pcm Bs) p = Inr p1 \<and>
           ticks ts p1 = Inr (rendered, p2) \<and>
           concat (map played rendered) = buffer p @ concat (map f32_elems Bs) \<and>
           buffer p2 = []"
proof -
  let ?p1 = "p\<lparr>buffer := buffer p @ concat (map f32_elems Bs)\<rparr>"
  let ?n = "\<Sum>outputs\<leftarrow>ts. frameCount outputs * channelCount outputs"
  have d: "deliver (map pcm Bs) p = Inr ?p1"
    using assms(1) by (rule deliver_pcm)
  from assms(3) have n: "?n = length (buffer ?p1)" by simp
  then have "?n \<le> length (buffer ?p1)" by simp
  from ticks_drain[OF assms(2) this] obtain rendered where
    t: "ticks ts ?p1 = Inr (rendered, ?p1\<lparr>buffer := drop ?n (buffer ?p1)\<rparr>)" and
    c: "concat (map played rendered) = take ?n (buffer ?p1)" by blast
  from c n have "concat (map played rendered) = buffer p @ concat (map f32_elems Bs)"
    by simp
  moreover from n have "buffer (?p1\<lparr>buffer := drop ?n (buffer ?p1)\<rparr>) = []" by simp
  ultimately show ?thesis using d t by blast
qed

theorem fifo_order_witness:
  "list_all (\<lambda>ab. length ab mod 4 = 0) [one_to_four, [], one_to_four] \<and>
   list_all render_request [[[[NaN], [NaN]]], [[[NaN, NaN, NaN], [NaN, NaN, NaN]]]] \<and>
   (\<exists>p1 rendered p2.
      deliver (map pcm [one_to_four, [], one_to_four]) PlayerProcessor = Inr p1 \<and>
      ticks [[[[NaN], [NaN]]], [[[NaN, NaN, NaN], [NaN, NaN, NaN]]]] p1 = Inr (rendered, p2) \<and>
      concat (map played rendered) =
        f32_elems one_to_four @ f32_elems one_to_four \<and>
      buffer p2 = [])"
  using fifo_order [of "[one_to_four, [], one_to_four]"
      "[[[[NaN], [NaN]]], [[[NaN, NaN, NaN], [NaN, NaN, NaN]]]]" PlayerProcessor]
  by (simp add: render_request_def frameCount_def channelCount_def one_to_four_def
      PlayerProcessor_def)

text \<open>
  Claim C3. A render tick that finds at least \<open>frameCount * channelCount\<close> samples
  de-interleaves the first \<open>frameCount * channelCount\<close> of them: the sample at index
  \<open>f * channelCount + ch\<close> goes to \<open>plane[ch][f]\<close>. With two channels, appending
  1.0, 2.0, 3.0, 4.0 (bit patterns \<open>0x3F800000\<close>, \<open>0x40000000\<close>, \<open>0x40400000\<close>,
  \<open>0x40800000\<close>) and draining two frames gives plane 0 = 1.0, 3.0 and plane 1 = 2.0, 4.0.
  The host always provides at least one channel.
\<close>

theorem deinterleave_correct:
  assumes "length out = channels" and "\<forall>pl\<in>set out. length pl = frames"
    and "0 < channels" and "frames * channels \<le> length (buffer p)"
  shows "process (out # rest) p =
           Inr (True, deinterleave frames channels (buffer p) # rest,
                p\<lparr>buffer := drop (frames * channels) (buffer p)\<rparr>) \<and>
         length (deinterleave frames channels (buffer p)) = channels \<and>
         (\<forall>ch<channels. length (deinterleave frames channels (buffer p) ! ch) = frames \<and>
            (\<forall>f<frames.
               deinterleave frames channels (buffer p) ! ch ! f = buffer p ! (f * channels + ch))) \<and>
         port_onmessage (pcm one_to_four) PlayerProcessor =
           Inr \<lparr>buffer = [Num 0x3F800000, Num 0x40000000, Num 0x40400000, Num 0x40800000],
                readIndex = 0\<rparr> \<and>
         process [[[a, b], [c, d]]]
             \<lparr>buffer = [Num 0x3F800000, Num 0x40000000, Num 0x40400000, Num 0x40800000],
              readIndex = 0\<rparr> =
           Inr (True, [[[Num 0x3F800000, Num 0x40400000], [Num 0x40000000, Num 0x40800000]]],
                \<lparr>buffer = [], readIndex = 0\<rparr>)"
proof -
  from assms(1,3) have ne: "out \<noteq> []" by auto
  from process_drain_rect[OF ne assms(2), of p rest] assms(1,4)
  have drain: "process (out # rest) p =
           Inr (True, deinterleave frames channels (buffer p) # rest,
                p\<lparr>buffer := drop (frames * channels) (buffer p)\<rparr>)"
    by simp
  have shape: "length (deinterleave frames channels (buffer p)) = channels"
    by (simp add: deinterleave_def)
  have cells: "\<forall>ch<channels. length (deinterleave frames channels (buffer p) ! ch) = frames \<and>
            (\<forall>f<frames.
               deinterleave frames channels (buffer p) ! ch ! f = buffer p ! (f * channels + ch))"
    by (simp add: deinterleave_def)
  let ?p1 = "\<lparr>buffer = [Num 0x3F800000, Num 0x40000000, Num 0x40400000, Num 0x40800000],
              readIndex = 0\<rparr>"
  have "port_onmessage (pcm one_to_four) PlayerProcessor =
      Inr (PlayerProcessor\<lparr>buffer := buffer PlayerProcessor @ f32_elems one_to_four\<rparr>)"
    by (rule port_onmessage_pcm) (simp add: one_to_four_def)
  then have m: "port_onmessage (pcm one_to_four) PlayerProcessor = Inr ?p1"
    by (simp add: PlayerProcessor_def f32_elems_one_to_four)
  have "process ([[a, b], [c, d]] # []) ?p1 =
          Inr (True, deinterleave 2 (length [[a, b], [c, d]]) (buffer ?p1) # [],
               ?p1\<lparr>buffer := drop (2 * length [[a, b], [c, d]]) (buffer ?p1)\<rparr>)"
    by (rule process_drain_rect) simp_all
  also have "deinterleave 2 (length [[a, b], [c, d]]) (buffer ?p1) =
      [[Num 0x3F800000, Num 0x40400000], [Num 0x40000000, Num 0x40800000]]"
    by (simp add: deinterleave_def numeral_2_eq_2)
  finally have ex: "process [[[a, b], [c, d]]] ?p1 =
           Inr (True, [[[Num 0x3F800000, Num 0x40400000], [Num 0x40000000, Num 0x40800000]]],
                \<lparr>buffer = [], readIndex = 0\<rparr>)"
    by simp
  from drain shape cells m ex show ?thesis by (intro conjI)
qed

theorem deinterleave_correct_witness:
  "length [[NaN, NaN, NaN], [NaN, NaN, NaN]] = 2 \<and>
   list_all (\<lambda>pl. length pl = 3) [[NaN, NaN, NaN], [NaN, NaN, NaN]] \<and>
   (0::nat) < 2 \<and>
   3 * 2 \<le> length (buffer \<lparr>buffer = map Num [10, 11, 12, 13, 14, 15, 16], readIndex = 0\<rparr>) \<and>
   process [[[NaN, NaN, NaN], [NaN, NaN, NaN]]]
       \<lparr>buffer = map Num [10, 11, 12, 13, 14, 15, 16], readIndex = 0\<rparr> =
     Inr (True, [[[Num 10, Num 12, Num 14], [Num 11, Num 13, Num 15]]],
          \<lparr>buffer = [Num 16], readIndex = 0\<rparr>)"
  using deinterleave_correct [of "[[NaN, NaN, NaN], [NaN, NaN, NaN]]" 2 3
      "\<lparr>buffer = map Num [10, 11, 12, 13, 14, 15, 16], readIndex = 0\<rparr>" "[]"]
  by (simp add: deinterleave_def numeral_2_eq_2 numeral_3_eq_3)

text \<open>
  Claim C4. Appending exactly \<open>frameCount * channelCount\<close> samples to an empty frame
  buffer and draining \<open>frameCount\<close> frames on \<open>channelCount\<close> channels gives planes
  that hold those samples, each at its place, and leaves the buffer empty.
\<close>

theorem exact_fit_drain:
  assumes "length out = channels" and "\<forall>pl\<in>set out. length pl = frames"
    and "0 < channels" and "length ab = 4 * (frames * channels)" and "buffer p = []"
  shows "port_onmessage (pcm ab) p = Inr (p\<lparr>buffer := f32_elems ab\<rparr>) \<and>
         length (f32_elems ab) = frames * channels \<and>
         process (out # rest) (p\<lparr>buffer := f32_elems ab\<rparr>) =
           Inr (True, deinterleave frames channels (f32_elems ab) # rest, p\<lparr>buffer := []\<rparr>) \<and>
         (\<forall>ch<channels. \<forall>f<frames.
            deinterleave frames channels (f32_elems ab) ! ch ! f =
              f32_elems ab ! (f * channels + ch))"
proof -
  from assms(4) have m4: "length ab mod 4 = 0" by simp
  from port_onmessage_pcm[OF m4, of p] assms(5)
  have app: "port_onmessage (pcm ab) p = Inr (p\<lparr>buffer := f32_elems ab\<rparr>)" by simp
  from assms(4) have len: "length (f32_elems ab) = frames * channels"
    by (simp add: length_f32_elems)
  from assms(1,3) have ne: "out \<noteq> []" by auto
  from process_drain_rect[OF ne assms(2), of "p\<lparr>buffer := f32_elems ab\<rparr>" rest] assms(1) len
  have drain: "process (out # rest) (p\<lparr>buffer := f32_elems ab\<rparr>) =
           Inr (True, deinterleave frames channels (f32_elems ab) # rest, p\<lparr>buffer := []\<rparr>)"
    by simp
  have cells: "\<forall>ch<channels. \<forall>f<frames.
            deinterleave frames channels (f32_elems ab) ! ch ! f =
              f32_elems ab ! (f * channels + ch)"
    by (simp add: deinterleave_def)
  from app len drain cells show ?thesis by (intro conjI)
qed

theorem exact_fit_drain_witness:
  "length [[NaN, NaN], [NaN, NaN]] = 2 \<and>
   list_all (\<lambda>pl. length pl = 2) [[NaN, NaN], [NaN, NaN]] \<and>
   (0::nat) < 2 \<and> length one_to_four = 4 * (2 * 2) \<and> buffer PlayerProcessor = [] \<and>
   port_onmessage (pcm one_to_four) PlayerProcessor =
     Inr (PlayerProcessor\<lparr>buffer := f32_elems one_to_four\<rparr>) \<and>
   process [[[NaN, NaN], [NaN, NaN]]] (PlayerProcessor\<lparr>buffer := f32_elems one_to_four\<rparr>) =
     Inr (True, [deinterleave 2 2 (f32_elems one_to_four)], PlayerProcessor\<lparr>buffer := []\<rparr>)"
  using exact_fit_drain [of "[[NaN, NaN], [NaN, NaN]]" 2 2 one_to_four PlayerProcessor "[]"]
  by (simp add: one_to_four_def PlayerProcessor_def)

text \<open>
  Claim C5, as the specification states it, says that a raw PCM chunk whose byte length
  is not a multiple of 4 is not an error and that its complete floats are appended. The
  code does otherwise: for the five bytes of 1.0 followed by one stray byte,
  \<open>new Float32Array(ab)\<close> throws a \<open>RangeError\<close> and nothing is posted to the
  processor.
\<close>

theorem partial_float_counterexample:
  "ws_onmessage_binary [0, 0, 0x80, 0x3F, 0]
       \<lparr>playerNode = Some [], console = [], spec_canvas = None\<rparr> =
     (\<lparr>playerNode = Some [], console = [], spec_canvas = None\<rparr>, Some RangeError)"
  by (simp add: ws_onmessage_binary_def header_def post_pcm_def new_Float32Array_def)

text \<open>
  Claim C5, amended. For a chunk that is not tagged \<open>"OP"\<close>, once \<open>playerNode\<close>
  exists: if the byte length is a multiple of 4, the handler does not throw, it posts
  the whole chunk, and the processor appends its \<open>length div 4\<close> floats to the tail of
  the frame buffer in order; if it is not, the handler throws a \<open>RangeError\<close>, posts
  nothing and leaves the page as it was (and the processor would refuse such a buffer
  in the same way).
\<close>

theorem raw_pcm_ingest:
  assumes "\<not> (2 \<le> length ab \<and> header ab = ''OP'')" and "playerNode a = Some port"
  shows "ws_onmessage_binary ab a =
           (if length ab mod 4 = 0
            then (a\<lparr>playerNode := Some (port @ [\<lparr>mtype = ''pcm'', mbuffer = ab\<rparr>])\<rparr>, None)
            else (a, Some RangeError)) \<and>
         port_onmessage (Some \<lparr>mtype = ''pcm'', mbuffer = ab\<rparr>) p =
           (if length ab mod 4 = 0
            then Inr (p\<lparr>buffer := buffer p @ f32_elems ab\<rparr>)
            else Inl RangeError) \<and>
         length (f32_elems ab) = length ab div 4"
proof -
  from assms(1) have r: "ws_onmessage_binary ab a = post_pcm ab a"
    unfolding ws_onmessage_binary_def by (rule if_not_P)
  have "port_onmessage (Some \<lparr>mtype = ''pcm'', mbuffer = ab\<rparr>) p =
           (if length ab mod 4 = 0
            then Inr (p\<lparr>buffer := buffer p @ f32_elems ab\<rparr>)
            else Inl RangeError)"
    using port_onmessage_pcm[of ab p] port_onmessage_bad_length[of ab p]
    by (simp add: pcm_def)
  with assms(2) show ?thesis
    unfolding r by (simp add: post_pcm_def new_Float32Array_def length_f32_elems)
qed

theorem raw_pcm_ingest_witness:
  "\<not> (2 \<le> length one_to_four \<and> header one_to_four = ''OP'') \<and>
   playerNode \<lparr>playerNode = Some [], console = [], spec_canvas = None\<rparr> = Some [] \<and>
   ws_onmessage_binary one_to_four \<lparr>playerNode = Some [], console = [], spec_canvas = None\<rparr> =
     (\<lparr>playerNode = Some [\<lparr>mtype = ''pcm'', mbuffer = one_to_four\<rparr>], console = [],
       spec_canvas = None\<rparr>, None) \<and>
   port_onmessage (Some \<lparr>mtype = ''pcm'', mbuffer = one_to_four\<rparr>) PlayerProcessor =
     Inr (PlayerProcessor\<lparr>buffer := buffer PlayerProcessor @ f32_elems one_to_four\<rparr>)"
  using raw_pcm_ingest [of one_to_four "\<lparr>playerNode = Some [], console = [], spec_canvas = None\<rparr>"
      "[]" PlayerProcessor]
  by (simp add: one_to_four_def header_def)

text \<open>
  Claim C6. A binary chunk of at least two bytes that starts with the bytes of \<open>"OP"\<close>
  is dropped whatever follows them: a warning is written to the console, no message is
  posted (so the frame buffer, which changes only through posted messages, stays as it
  was) and nothing is thrown. A chunk of no byte or one byte is not tested for the tag
  and takes the raw PCM path.
\<close>

theorem opus_chunk_dropped:
  "ws_onmessage_binary (0x4F # 0x50 # payload) a =
     (a\<lparr>console := console a @
           [(Warn, ''Received Opus packet - decoder not implemented in UI'')]\<rparr>, None) \<and>
   playerNode (fst (ws_onmessage_binary (0x4F # 0x50 # payload) a)) = playerNode a \<and>
   ws_onmessage_binary [] a = post_pcm [] a \<and>
   ws_onmessage_binary [b] a = post_pcm [b] a"
  by (simp add: ws_onmessage_binary_def header_OP)

text \<open>
  Claim C7. Every render tick returns \<open>true\<close> and does not throw, whatever the frame
  buffer holds; when the buffer holds too little, the output is silence and the buffer
  is kept. \<open>out\<close> is \<open>outputs[0]\<close>, which the host provides with at least one
  channel.
\<close>

theorem render_always_continues:
  assumes "out \<noteq> []"
  shows "(\<exists>out' p'. process (out # rest) p = Inr (True, out' # rest, p')) \<and>
         (length (buffer p) < length (hd out) * length out \<longrightarrow>
            process (out # rest) p =
              Inr (True, map (\<lambda>pl. replicate (length pl) f32_zero) out # rest, p))"
proof (cases "length (buffer p) < length (hd out) * length out")
  case True
  with assms have "process (out # rest) p =
      Inr (True, map (\<lambda>pl. replicate (length pl) f32_zero) out # rest, p)"
    by (rule process_underrun)
  then show ?thesis by simp
next
  case False
  then have "length (hd out) * length out \<le> length (buffer p)" by simp
  with assms have "process (out # rest) p =
      Inr (True, fst (frame_loop 0 (length (hd out)) (length out) (buffer p) (out, 0)) # rest,
           p\<lparr>buffer := drop (length (hd out) * length out) (buffer p)\<rparr>)"
    by (rule process_sufficient)
  with False show ?thesis by simp
qed

theorem render_always_continues_witness:
  "[[NaN, NaN], [NaN, NaN]] \<noteq> [] \<and>
   (\<exists>out' p'. process [[[NaN, NaN], [NaN, NaN]]] \<lparr>buffer = [NaN], readIndex = 0\<rparr> =
       Inr (True, [out'], p')) \<and>
   process [[[NaN, NaN], [NaN, NaN]]] \<lparr>buffer = [NaN], readIndex = 0\<rparr> =
     Inr (True, [[[Num 0, Num 0], [Num 0, Num 0]]], \<lparr>buffer = [NaN], readIndex = 0\<rparr>)"
  using render_always_continues [of "[[NaN, NaN], [NaN, NaN]]" "[]"
      "\<lparr>buffer = [NaN], readIndex = 0\<rparr>"]
  by (simp add: f32_zero_def)

text \<open>
  Claim C8. Take a matrix of numbers and a page with the canvas. If the matrix has a row
  and neither it nor the canvas exceeds what a browser allows (\<open>2^32\<close>), then
  \<open>drawSpectrogram\<close> throws nothing. Whenever it throws nothing, the image has
  \<open>4 * w * h\<close> bytes, and for every pixel \<open>(x, y)\<close> the matrix has the row
  \<open>Math.floor((y / h) * rows)\<close>, and the four bytes of the pixel are \<open>c\<close>, 0, \<open>255 - c\<close>
  and 255 as the \<open>Uint8ClampedArray\<close> stores them, where \<open>c\<close> is \<open>(v + 80) * 3\<close> clamped
  to 0..255 by \<open>Math.min\<close> and \<open>Math.max\<close> and \<open>v\<close> is the cell of that row at column
  \<open>Math.floor((x / w) * cols)\<close> (\<open>undefined\<close> if the row is shorter). All arithmetic is
  the binary64 arithmetic of the code.
\<close>

theorem spectrogram_pixels:
  assumes "spec_canvas a = Some cv" and "num_matrix matrix = Some m"
  shows "(m \<noteq> [] \<and> length m \<le> 2 ^ 32 \<and> 0 < width cv \<and> 0 < height cv \<and>
          height cv \<le> 2 ^ 32 \<longrightarrow>
            snd (drawSpectrogram other matrix a) = None) \<and>
         (drawSpectrogram other matrix a = (a', None) \<longrightarrow>
            (\<exists>img. a' = a\<lparr>spec_canvas := Some (cv\<lparr>pixels := img\<rparr>)\<rparr> \<and>
           length img = 4 * width cv * height cv \<and>
           (\<forall>y<height cv. \<forall>x<width cv. \<exists>cells.
              js_elem m (js_floor (dmul (ratio y (height cv)) (of_len (length m)))) = Some cells \<and>
              (let v = js_elem cells
                         (js_floor (dmul (ratio x (width cv)) (of_len (length (hd m)))));
                   c = js_max (Finite 0)
                         (js_min (Finite 255) (dmul (dadd (to_number v) (Finite 80)) (Finite 3)))
               in take 4 (drop ((y * width cv + x) * 4) img) =
                    [to_uint8_clamp c, 0, to_uint8_clamp (dsub (Finite 255) c), 255]))))"
  using drawSpectrogram_total[OF assms, of other] drawn_pixels[OF assms, of other a']
  by blast

theorem spectrogram_pixels_witness:
  "spec_canvas demo_page = Some demo_canvas \<and>
   num_matrix (json_matrix demo_matrix) = Some demo_matrix \<and>
   demo_matrix \<noteq> [] \<and> length demo_matrix \<le> 2 ^ 32 \<and>
   0 < width demo_canvas \<and> 0 < height demo_canvas \<and> height demo_canvas \<le> 2 ^ 32 \<and>
   snd (drawSpectrogram (\<lambda>m r c w h. Inl TypeError) (json_matrix demo_matrix) demo_page) = None \<and>
   drawSpectrogram (\<lambda>m r c w h. Inl TypeError) (json_matrix demo_matrix) demo_page =
     (demo_page\<lparr>spec_canvas := Some (demo_canvas\<lparr>pixels :=
        [0, 0, 255, 255,  2, 0, 254, 255,  255, 0, 0, 255,  150, 0, 105, 255]\<rparr>)\<rparr>, None) \<and>
   (\<exists>cells.
      js_elem demo_matrix
        (js_floor (dmul (ratio 0 (height demo_canvas)) (of_len (length demo_matrix)))) =
        Some cells \<and>
      (let v = js_elem cells
                 (js_floor (dmul (ratio 1 (width demo_canvas)) (of_len (length (hd demo_matrix)))));
           c = js_max (Finite 0)
                 (js_min (Finite 255) (dmul (dadd (to_number v) (Finite 80)) (Finite 3)))
       in take 4 (drop ((0 * width demo_canvas + 1) * 4)
            [0, 0, 255, 255,  2, 0, 254, 255,  255, 0, 0, 255,  150, 0, 105, 255]) =
            [to_uint8_clamp c, 0, to_uint8_clamp (dsub (Finite 255) c), 255])) \<and>
   js_elem demo_matrix (js_floor (dmul (ratio 0 2) (of_len 2))) =
     Some [Finite (- 80), Finite (- 159 / 2)] \<and>
   js_elem [Finite (- 80), Finite (- 159 / 2)] (js_floor (dmul (ratio 1 2) (of_len 2))) =
     Some (Finite (- 159 / 2)) \<and>
   dmul (dadd (Finite (- 159 / 2)) (Finite 80)) (Finite 3) = Finite (3 / 2)"
proof -
  let ?bytes = "[0, 0, 255, 255,  2, 0, 254, 255,  255, 0, 0, 255,  150, 0, 105, 255] :: byte list"
  let ?other = "\<lambda>m r c w h. Inl TypeError :: exn + byte list"
  let ?page = "demo_page\<lparr>spec_canvas := Some (demo_canvas\<lparr>pixels := ?bytes\<rparr>)\<rparr>"
  have h1: "spec_canvas demo_page = Some demo_canvas"
    by (simp add: demo_page_def)
  have h2: "num_matrix (json_matrix demo_matrix) = Some demo_matrix"
    by (simp add: json_matrix_def demo_matrix_def)
  have h3: "drawSpectrogram ?other (json_matrix demo_matrix) demo_page = (?page, None)"
    by code_simp
  have b: "demo_matrix \<noteq> []" "length demo_matrix \<le> 2 ^ 32" "0 < width demo_canvas"
    "0 < height demo_canvas" "height demo_canvas \<le> 2 ^ 32"
    by (simp_all add: demo_matrix_def demo_canvas_def)
  have r: "js_elem demo_matrix (js_floor (dmul (ratio 0 2) (of_len 2))) =
     Some [Finite (- 80), Finite (- 159 / 2)]"
    by code_simp
  have c: "js_elem [Finite (- 80), Finite (- 159 / 2)] (js_floor (dmul (ratio 1 2) (of_len 2))) =
     Some (Finite (- 159 / 2))"
    by code_simp
  have v: "dmul (dadd (Finite (- 159 / 2)) (Finite 80)) (Finite 3) = Finite (3 / 2)"
    by code_simp
  note t = spectrogram_pixels[OF h1 h2, of ?other ?page]
  from t b have total: "snd (drawSpectrogram ?other (json_matrix demo_matrix) demo_page) = None"
    by blast
  from t h3 obtain img where
    img: "?page = demo_page\<lparr>spec_canvas := Some (demo_canvas\<lparr>pixels := img\<rparr>)\<rparr>" and
    px: "\<forall>y<height demo_canvas. \<forall>x<width demo_canvas. \<exists>cells.
           js_elem demo_matrix
             (js_floor (dmul (ratio y (height demo_canvas)) (of_len (length demo_matrix)))) =
             Some cells \<and>
           (let v = js_elem cells
                      (js_floor (dmul (ratio x (width demo_canvas))
                         (of_len (length (hd demo_matrix)))));
                c = js_max (Finite 0)
                      (js_min (Finite 255) (dmul (dadd (to_number v) (Finite 80)) (Finite 3)))
            in take 4 (drop ((y * width demo_canvas + x) * 4) img) =
                 [to_uint8_clamp c, 0, to_uint8_clamp (dsub (Finite 255) c), 255])"
    by blast
  from img have bytes: "img = ?bytes"
    by (simp add: demo_page_def demo_canvas_def)
  have "0 < height demo_canvas" and "1 < width demo_canvas"
    by (simp_all add: demo_canvas_def)
  from px[rule_format, OF this] h1 h2 h3 b total r c v show ?thesis
    unfolding bytes by (intro conjI)
qed

text \<open>
  Claim C9. The length of the frame buffer, a list, is never negative. A \<open>pcm\<close>
  message with \<open>n\<close> samples makes the buffer longer by exactly \<open>n\<close> and keeps what was
  buffered as a prefix; any other message changes nothing. A render tick either finds
  fewer than \<open>frames * channels\<close> samples and changes nothing, or removes exactly
  \<open>frames * channels\<close> samples from the front.
\<close>

theorem buffer_length_accounting:
  assumes "length ab mod 4 = 0" and "mtype m \<noteq> ''pcm''" and "out \<noteq> []"
    and "n = length (hd out) * length out"
  shows "port_onmessage (pcm ab) p = Inr (p\<lparr>buffer := buffer p @ f32_elems ab\<rparr>) \<and>
         length (buffer p @ f32_elems ab) = length (buffer p) + length (f32_elems ab) \<and>
         take (length (buffer p)) (buffer p @ f32_elems ab) = buffer p \<and>
         port_onmessage (Some m) p = Inr p \<and>
         port_onmessage None p = Inr p \<and>
         (if length (buffer p) < n
          then \<exists>out'. process (out # rest) p = Inr (True, out' # rest, p)
          else (\<exists>out'. process (out # rest) p =
                  Inr (True, out' # rest, p\<lparr>buffer := drop n (buffer p)\<rparr>)) \<and>
               length (drop n (buffer p)) + n = length (buffer p))"
proof -
  have a: "port_onmessage (pcm ab) p = Inr (p\<lparr>buffer := buffer p @ f32_elems ab\<rparr>)"
    using assms(1) by (rule port_onmessage_pcm)
  have b: "port_onmessage (Some m) p = Inr p"
    using assms(2) by (simp add: port_onmessage_def)
  have c: "port_onmessage None p = Inr p"
    by (simp add: port_onmessage_def)
  have d: "if length (buffer p) < n
          then \<exists>out'. process (out # rest) p = Inr (True, out' # rest, p)
          else (\<exists>out'. process (out # rest) p =
                  Inr (True, out' # rest, p\<lparr>buffer := drop n (buffer p)\<rparr>)) \<and>
               length (drop n (buffer p)) + n = length (buffer p)"
  proof (cases "length (buffer p) < n")
    case True
    with process_underrun[OF assms(3), of p rest] assms(4) show ?thesis by simp
  next
    case False
    with process_sufficient[OF assms(3), of p rest] assms(4) show ?thesis by simp
  qed
  from a b c d show ?thesis by simp
qed

theorem buffer_length_accounting_witness:
  "length one_to_four mod 4 = 0 \<and> mtype \<lparr>mtype = ''ping'', mbuffer = []\<rparr> \<noteq> ''pcm'' \<and>
   [[NaN], [NaN]] \<noteq> [] \<and> 2 = length (hd [[NaN], [NaN]]) * length [[NaN], [NaN]] \<and>
   port_onmessage (pcm one_to_four) \<lparr>buffer = [NaN, NaN, NaN], readIndex = 0\<rparr> =
     Inr \<lparr>buffer = [NaN, NaN, NaN] @ f32_elems one_to_four, readIndex = 0\<rparr> \<and>
   port_onmessage (Some \<lparr>mtype = ''ping'', mbuffer = []\<rparr>)
       \<lparr>buffer = [NaN, NaN, NaN], readIndex = 0\<rparr> =
     Inr \<lparr>buffer = [NaN, NaN, NaN], readIndex = 0\<rparr> \<and>
   (\<exists>out'. process [[[NaN], [NaN]]] \<lparr>buffer = [NaN, NaN, NaN], readIndex = 0\<rparr> =
      Inr (True, [out'], \<lparr>buffer = [NaN], readIndex = 0\<rparr>))"
  using buffer_length_accounting [of one_to_four "\<lparr>mtype = ''ping'', mbuffer = []\<rparr>"
      "[[NaN], [NaN]]" 2 "\<lparr>buffer = [NaN, NaN, NaN], readIndex = 0\<rparr>" "[]"]
  by (simp add: one_to_four_def)

text \<open>
  Claim C10. The text branch of the message handler never lets an exception out: the
  handler returns the page as the body of the \<open>try\<close> left it and no exception, and it
  writes nothing to the console and posts nothing. When the body threw, the page is
  unchanged or differs only in that the canvas was cleared. A \<open>JSON.parse\<close> failure
  leaves the page unchanged; any exception of \<open>drawSpectrogram\<close> is dropped after the
  canvas was cleared. A \<open>spectrogram\<close> message whose matrix has no row makes
  \<open>matrix[0].length\<close> throw a \<open>TypeError\<close> after the canvas was cleared; the handler
  keeps the cleared canvas and throws nothing.
\<close>

theorem text_handler_absorbs:
  "ws_onmessage_text other parsed a = (fst (try_body other parsed a), None) \<and>
   console (fst (ws_onmessage_text other parsed a)) = console a \<and>
   playerNode (fst (ws_onmessage_text other parsed a)) = playerNode a \<and>
   (snd (try_body other parsed a) = Some e \<longrightarrow>
      ws_onmessage_text other parsed a = (a, None) \<or>
      (\<exists>cv. spec_canvas a = Some cv \<and>
         ws_onmessage_text other parsed a = (a\<lparr>spec_canvas := Some (clearRect cv)\<rparr>, None))) \<and>
   ws_onmessage_text other (Inl e) a = (a, None) \<and>
   (drawSpectrogram other matrix a = (a', Some e) \<longrightarrow>
      (\<exists>cv. spec_canvas a = Some cv \<and> a' = a\<lparr>spec_canvas := Some (clearRect cv)\<rparr>) \<and>
      ws_onmessage_text other
          (Inr (Obj [(ascii ''type'', Str (ascii ''spectrogram'')), (ascii ''data'', matrix)])) a =
        (a', None)) \<and>
   drawSpectrogram other (Arr []) (a\<lparr>spec_canvas := Some cv\<rparr>) =
     (a\<lparr>spec_canvas := Some (clearRect cv)\<rparr>, Some TypeError) \<and>
   ws_onmessage_text other
       (Inr (Obj [(ascii ''type'', Str (ascii ''spectrogram'')), (ascii ''data'', Arr [])]))
       (a\<lparr>spec_canvas := Some cv\<rparr>) =
     (a\<lparr>spec_canvas := Some (clearRect cv)\<rparr>, None)"
proof -
  note k = text_keeps_body[of other parsed a]
  have 1: "console (fst (ws_onmessage_text other parsed a)) = console a \<and>
           playerNode (fst (ws_onmessage_text other parsed a)) = playerNode a"
    by (simp add: k try_body_page)
  have 2: "snd (try_body other parsed a) = Some e \<longrightarrow>
      ws_onmessage_text other parsed a = (a, None) \<or>
      (\<exists>cv. spec_canvas a = Some cv \<and>
         ws_onmessage_text other parsed a = (a\<lparr>spec_canvas := Some (clearRect cv)\<rparr>, None))"
  proof
    assume "snd (try_body other parsed a) = Some e"
    then have "try_body other parsed a = (fst (try_body other parsed a), Some e)"
      by (simp add: prod_eq_iff)
    from try_body_fault[OF this] show "ws_onmessage_text other parsed a = (a, None) \<or>
      (\<exists>cv. spec_canvas a = Some cv \<and>
         ws_onmessage_text other parsed a = (a\<lparr>spec_canvas := Some (clearRect cv)\<rparr>, None))"
      by (auto simp: k)
  qed
  have 3: "ws_onmessage_text other (Inl e) a = (a, None)"
    by (simp add: ws_onmessage_text_def try_body_def)
  have td: "ascii ''type'' \<noteq> ascii ''data''" by (simp add: ascii_def)
  have body: "try_body other
      (Inr (Obj [(ascii ''type'', Str (ascii ''spectrogram'')), (ascii ''data'', d)])) b =
      drawSpectrogram other d b" for d b
    using td by (simp add: try_body_def)
  have 4: "drawSpectrogram other matrix a = (a', Some e) \<longrightarrow>
      (\<exists>cv. spec_canvas a = Some cv \<and> a' = a\<lparr>spec_canvas := Some (clearRect cv)\<rparr>) \<and>
      ws_onmessage_text other
          (Inr (Obj [(ascii ''type'', Str (ascii ''spectrogram'')), (ascii ''data'', matrix)])) a =
        (a', None)"
    by (auto simp: text_keeps_body body dest: drawSpectrogram_fault)
  have 5: "drawSpectrogram other (Arr []) (a\<lparr>spec_canvas := Some cv\<rparr>) =
     (a\<lparr>spec_canvas := Some (clearRect cv)\<rparr>, Some TypeError)"
    by (simp add: drawSpectrogram_def)
  have 6: "ws_onmessage_text other
       (Inr (Obj [(ascii ''type'', Str (ascii ''spectrogram'')), (ascii ''data'', Arr [])]))
       (a\<lparr>spec_canvas := Some cv\<rparr>) =
     (a\<lparr>spec_canvas := Some (clearRect cv)\<rparr>, None)"
    by (simp add: text_keeps_body body 5)
  from k 1 2 3 4 5 6 show ?thesis by (intro conjI) simp_all
qed

theorem text_handler_absorbs_witness:
  "snd (try_body (\<lambda>m r c w h. Inl TypeError)
          (Inr (Obj [(ascii ''type'', Str (ascii ''spectrogram'')), (ascii ''data'', Arr [])]))
          demo_page) = Some TypeError \<and>
   drawSpectrogram (\<lambda>m r c w h. Inl TypeError) (Arr []) demo_page =
     (demo_page\<lparr>spec_canvas := Some (clearRect demo_canvas)\<rparr>, Some TypeError) \<and>
   ws_onmessage_text (\<lambda>m r c w h. Inl TypeError)
       (Inr (Obj [(ascii ''type'', Str (ascii ''spectrogram'')), (ascii ''data'', Arr [])]))
       demo_page =
     (demo_page\<lparr>spec_canvas := Some (clearRect demo_canvas)\<rparr>, None) \<and>
   console (fst (ws_onmessage_text (\<lambda>m r c w h. Inl TypeError)
       (Inr (Obj [(ascii ''type'', Str (ascii ''spectrogram'')), (ascii ''data'', Arr [])]))
       demo_page)) = []"
proof -
  let ?other = "\<lambda>m r c w h. Inl TypeError :: exn + byte list"
  let ?msg = "Inr (Obj [(ascii ''type'', Str (ascii ''spectrogram'')), (ascii ''data'', Arr [])])"
  have page: "demo_page = demo_page\<lparr>spec_canvas := Some demo_canvas\<rparr>"
    by (simp add: demo_page_def)
  have d: "drawSpectrogram ?other (Arr []) demo_page =
     (demo_page\<lparr>spec_canvas := Some (clearRect demo_canvas)\<rparr>, Some TypeError)"
    by (simp add: drawSpectrogram_def demo_page_def)
  have "ascii ''type'' \<noteq> ascii ''data''" by (simp add: ascii_def)
  then have b: "snd (try_body ?other ?msg demo_page) = Some TypeError"
    by (simp add: try_body_def d)
  from text_handler_absorbs[of ?other ?msg demo_page TypeError "Arr []"
      "demo_page\<lparr>spec_canvas := Some (clearRect demo_canvas)\<rparr>" demo_canvas] b d
  show ?thesis
    by (auto simp: demo_page_def)
qed

end
